theory Spec2Isabelle
  imports Complex_Main "HOL-Library.Product_Lexorder" "HOL-Library.Multiset"
    "HOL-Library.Sublist" "HOL-Library.FSet" "HOL-Library.Word"
begin

section \<open>The PDF renamer: row extraction and batch naming\<close>

text \<open>
  The program is one Python file, \<^verbatim>\<open>app.py\<close>, with two functions:
  \<^verbatim>\<open>extract_table_data\<close>, which reads the positioned text spans of a PDF and
  returns the nine-token row starting at the anchor \<^verbatim>\<open>KCZ\<close>, and \<^verbatim>\<open>main\<close>,
  whose processing loop names each uploaded file after its row and writes it to a zip
  archive.

  The PDF parser (PyMuPDF) is not part of the program. It is a parameter of the model:
  \<open>fitz_open\<close> maps a byte buffer either to an exception or to the pages of the
  document, and each page either raises when its text is read or gives the dictionary
  that \<^verbatim>\<open>page.get_text("dict")\<close> returns. Coordinates are Python floats; the model
  takes them as exact reals, so it says nothing about NaN, infinities or rounding of
  float arithmetic. Texts are strings of characters with code points below 256; a
  character beyond that is outside the model.
\<close>

subsection \<open>Data\<close>

type_synonym bytes = "8 word list"

datatype error = FitzError string | ValueError

text \<open>
  The dictionaries of \<^verbatim>\<open>get_text("dict")\<close>. Every key is read with \<^verbatim>\<open>.get\<close>, so a
  missing key is a value of the model: \<open>None\<close>.
\<close>

record span =
  span_text :: "string option"
  span_bbox :: "real list option"

record line =
  line_spans :: "span list option"

record block =
  block_type :: "int option"
  block_lines :: "line list option"

record text_dict =
  dict_blocks :: "block list option"

type_synonym page = "error + text_dict"

type_synonym document = "page list"

text \<open>The entries of \<^verbatim>\<open>potential_cells\<close>: \<^verbatim>\<open>{'text': text, 'x': x0, 'y': y0}\<close>.\<close>

record cell =
  cell_text :: string
  cell_x :: real
  cell_y :: real

text \<open>\<^verbatim>\<open>d.get(key, default)\<close>\<close>

definition get_default :: "'a \<Rightarrow> 'a option \<Rightarrow> 'a" where
  "get_default d v = (case v of None \<Rightarrow> d | Some a \<Rightarrow> a)"

subsection \<open>Python's \<^verbatim>\<open>str.strip\<close> and \<^verbatim>\<open>round\<close>\<close>

text \<open>
  The characters below code point 256 for which \<^verbatim>\<open>str.isspace\<close> holds: tab to
  carriage return, the four separators \<^verbatim>\<open>0x1C\<close> to \<^verbatim>\<open>0x1F\<close>, the space, the next-line
  character \<^verbatim>\<open>0x85\<close> and the no-break space \<^verbatim>\<open>0xA0\<close>. \<^verbatim>\<open>strip\<close> removes them
  at both ends.
\<close>

definition is_space :: "char \<Rightarrow> bool" where
  "is_space c = (c \<in> set [CHR 0x09, CHR 0x0A, CHR 0x0B, CHR 0x0C, CHR 0x0D,
                            CHR 0x1C, CHR 0x1D, CHR 0x1E, CHR 0x1F, CHR 0x20,
                            CHR 0x85, CHR 0xA0])"

definition strip :: "string \<Rightarrow> string" where
  "strip s = rev (dropWhile is_space (rev (dropWhile is_space s)))"

text \<open>
  \<^verbatim>\<open>round(r)\<close> with one argument gives the nearest integer, and the even one of the
  two when \<open>r\<close> is halfway between them.
\<close>

definition py_round :: "real \<Rightarrow> int" where
  "py_round r =
     (let f = \<lfloor>r\<rfloor>; d = r - of_int f
      in if d < 1 / 2 then f
         else if 1 / 2 < d then f + 1
         else if even f then f else f + 1)"

subsection \<open>\<^verbatim>\<open>extract_table_data\<close>\<close>

text \<open>
  The body of the loop over spans (lines 25 to 34): the cell a span contributes, none
  when its stripped text or its bounding box is empty, and the \<^verbatim>\<open>ValueError\<close> of
  \<^verbatim>\<open>x0, y0, x1, y1 = bbox\<close> when the box has not four entries.
\<close>

definition span_cell :: "span \<Rightarrow> error + cell option" where
  "span_cell s =
     (let text = strip (get_default [] (span_text s))
      in if text \<noteq> [] then
           (let bbox = get_default [] (span_bbox s)
            in if bbox \<noteq> [] then
                 (case bbox of
                    [x0, y0, x1, y1] \<Rightarrow> Inr (Some \<lparr>cell_text = text, cell_x = x0, cell_y = y0\<rparr>)
                  | _ \<Rightarrow> Inl ValueError)
               else Inr None)
         else Inr None)"

text \<open>The three nested loops of lines 21 to 34, each threading \<^verbatim>\<open>potential_cells\<close>.\<close>

fun spans_loop :: "span list \<Rightarrow> cell list \<Rightarrow> error + cell list" where
  "spans_loop [] potential_cells = Inr potential_cells"
| "spans_loop (s # ss) potential_cells =
     (case span_cell s of
        Inl e \<Rightarrow> Inl e
      | Inr None \<Rightarrow> spans_loop ss potential_cells
      | Inr (Some c) \<Rightarrow> spans_loop ss (potential_cells @ [c]))"

fun lines_loop :: "line list \<Rightarrow> cell list \<Rightarrow> error + cell list" where
  "lines_loop [] potential_cells = Inr potential_cells"
| "lines_loop (l # ls) potential_cells =
     (case spans_loop (get_default [] (line_spans l)) potential_cells of
        Inl e \<Rightarrow> Inl e
      | Inr pc \<Rightarrow> lines_loop ls pc)"

fun blocks_loop :: "block list \<Rightarrow> cell list \<Rightarrow> error + cell list" where
  "blocks_loop [] potential_cells = Inr potential_cells"
| "blocks_loop (b # bs) potential_cells =
     (if block_type b = Some 0 then
        (case lines_loop (get_default [] (block_lines b)) potential_cells of
           Inl e \<Rightarrow> Inl e
         | Inr pc \<Rightarrow> blocks_loop bs pc)
      else blocks_loop bs potential_cells)"

text \<open>
  Line 37: \<^verbatim>\<open>potential_cells.sort(key=lambda c: (round(c['y'] / 5), c['x']))\<close>.
  Python's sort is stable and compares the key tuples lexicographically, as
  \<^const>\<open>sort_key\<close> does on pairs.
\<close>

definition sort_keyfn :: "cell \<Rightarrow> int \<times> real" where
  "sort_keyfn c = (py_round (cell_y c / 5), cell_x c)"

definition sort_cells :: "cell list \<Rightarrow> cell list" where
  "sort_cells potential_cells = sort_key sort_keyfn potential_cells"

text \<open>
  The inner loop of lines 46 to 51 over \<^verbatim>\<open>potential_cells[i+1:]\<close>, threading
  \<^verbatim>\<open>row_cells\<close>.
\<close>

fun collect_row :: "real \<Rightarrow> string list \<Rightarrow> cell list \<Rightarrow> string list" where
  "collect_row current_y row_cells [] = row_cells"
| "collect_row current_y row_cells (next_cell # rest) =
     (if \<bar>cell_y next_cell - current_y\<bar> < 5 then
        collect_row current_y (row_cells @ [cell_text next_cell]) rest
      else if cell_y next_cell > current_y + 10 then row_cells
      else collect_row current_y row_cells rest)"

text \<open>Lines 42 to 51: the line of the anchor \<open>cell\<close>, followed by the cells \<open>rest\<close>.\<close>

definition anchor_row :: "cell \<Rightarrow> cell list \<Rightarrow> string list" where
  "anchor_row cell rest = collect_row (cell_y cell) [cell_text cell] rest"

text \<open>
  The loop of lines 40 to 56 over the sorted cells: the first anchor whose line has at
  least nine elements gives the row; any other cell is passed over.
\<close>

fun find_row :: "cell list \<Rightarrow> string list option" where
  "find_row [] = None"
| "find_row (c # rest) =
     (if cell_text c = ''KCZ'' then
        (let row_cells = anchor_row c rest
         in if length row_cells \<ge> 9 then Some (take 9 row_cells) else find_row rest)
      else find_row rest)"

text \<open>The body of the loop over pages, up to the \<^verbatim>\<open>return\<close>.\<close>

definition page_row :: "page \<Rightarrow> error + string list option" where
  "page_row p =
     (case p of
        Inl e \<Rightarrow> Inl e
      | Inr d \<Rightarrow>
          (case blocks_loop (get_default [] (dict_blocks d)) [] of
             Inl e \<Rightarrow> Inl e
           | Inr potential_cells \<Rightarrow> Inr (find_row (sort_cells potential_cells))))"

text \<open>
  What a call leaves behind: the returned value, the messages given to \<^verbatim>\<open>st.error\<close>,
  and the state of the document handle.
\<close>

datatype doc_handle = NotOpened | Opened | Closed

record outcome =
  result :: "string list option"
  st_errors :: "error list"
  handle :: doc_handle

text \<open>
  The loop over pages with its three exits: the \<^verbatim>\<open>return\<close> of line 56 after
  \<^verbatim>\<open>doc.close()\<close>, the \<^verbatim>\<open>return None\<close> of line 59 after \<^verbatim>\<open>doc.close()\<close>, and the
  \<^verbatim>\<open>except\<close> branch of lines 61 to 63, which reports the exception and returns
  \<^verbatim>\<open>None\<close>.
\<close>

fun pages_loop :: "document \<Rightarrow> outcome" where
  "pages_loop [] = \<lparr>result = None, st_errors = [], handle = Closed\<rparr>"
| "pages_loop (p # ps) =
     (case page_row p of
        Inl e \<Rightarrow> \<lparr>result = None, st_errors = [e], handle = Opened\<rparr>
      | Inr (Some row) \<Rightarrow> \<lparr>result = Some row, st_errors = [], handle = Closed\<rparr>
      | Inr None \<Rightarrow> pages_loop ps)"

definition extract_table_data :: "(bytes \<Rightarrow> error + document) \<Rightarrow> bytes \<Rightarrow> outcome" where
  "extract_table_data fitz_open pdf_bytes =
     (case fitz_open pdf_bytes of
        Inl e \<Rightarrow> \<lparr>result = None, st_errors = [e], handle = NotOpened\<rparr>
      | Inr doc \<Rightarrow> pages_loop doc)"

subsection \<open>The processing loop of \<^verbatim>\<open>main\<close>\<close>

text \<open>\<^verbatim>\<open>sep.join(xs)\<close>\<close>

fun join :: "string \<Rightarrow> string list \<Rightarrow> string" where
  "join sep [] = []"
| "join sep [s] = s"
| "join sep (s # t # ts) = s @ sep @ join sep (t # ts)"

text \<open>
  \<^verbatim>\<open>re.sub(r'[<>:"/\\|?*]', '_', s)\<close>: each character of the class becomes an
  underscore. \<open>CHR 0x22\<close> is the double quote and \<open>CHR 0x5C\<close> the backslash.
\<close>

definition sanitize :: "string \<Rightarrow> string" where
  "sanitize s =
     map (\<lambda>c. if c \<in> set [CHR ''<'', CHR ''>'', CHR '':'', CHR 0x22, CHR ''/'', CHR 0x5C,
                              CHR ''|'', CHR ''?'', CHR ''*'']
              then CHR ''_'' else c) s"

text \<open>The decimal digits of a counter, as \<^verbatim>\<open>f"{counter}"\<close> writes them.\<close>

fun str_nat :: "nat \<Rightarrow> string" where
  "str_nat n =
     (if n < 10 then [''0123456789'' ! n]
      else str_nat (n div 10) @ [''0123456789'' ! (n mod 10)])"

declare str_nat.simps [simp del]

text \<open>
  The loop of lines 122 to 124 on \<^verbatim>\<open>final_new_name\<close> and \<^verbatim>\<open>counter\<close>. It ends
  because the names it tries are pairwise different and the set is finite.
\<close>

function dedup_loop :: "string \<Rightarrow> string fset \<Rightarrow> string \<Rightarrow> nat \<Rightarrow> string" where
  "dedup_loop base_name generated final_new_name counter =
     (if final_new_name |\<in>| generated then
        dedup_loop base_name generated (base_name @ ''_'' @ str_nat counter @ ''.pdf'') (counter + 1)
      else final_new_name)"
  by pat_completeness auto
termination
proof -
  have ne: "str_nat n \<noteq> []" for n
    by (subst str_nat.simps) simp
  have digit: "''0123456789'' ! i = ''0123456789'' ! j \<longleftrightarrow> i = j" if "i < 10" "j < 10" for i j :: nat
    using that by (intro nth_eq_iff_index_eq) simp_all
  have inj: "str_nat m = str_nat n \<Longrightarrow> m = n" for m n
  proof (induction m arbitrary: n rule: str_nat.induct)
    case (1 m)
    show ?case
    proof (cases "m < 10")
      case True
      then have m: "str_nat m = [''0123456789'' ! m]" by (subst str_nat.simps) simp
      show ?thesis
      proof (cases "n < 10")
        case n: True
        then have "str_nat n = [''0123456789'' ! n]" by (subst str_nat.simps) simp
        with m "1.prems" have "''0123456789'' ! m = ''0123456789'' ! n" by simp
        with digit [OF True n] show ?thesis by simp
      next
        case False
        then have "str_nat n = str_nat (n div 10) @ [''0123456789'' ! (n mod 10)]"
          by (subst str_nat.simps) simp
        with m "1.prems" ne [of "n div 10"] show ?thesis by (simp add: Cons_eq_append_conv)
      qed
    next
      case False
      then have m: "str_nat m = str_nat (m div 10) @ [''0123456789'' ! (m mod 10)]"
        by (subst str_nat.simps) simp
      show ?thesis
      proof (cases "n < 10")
        case True
        then have "str_nat n = [''0123456789'' ! n]" by (subst str_nat.simps) simp
        with m "1.prems" ne [of "m div 10"] show ?thesis by (simp add: append_eq_Cons_conv)
      next
        case n: False
        then have "str_nat n = str_nat (n div 10) @ [''0123456789'' ! (n mod 10)]"
          by (subst str_nat.simps) simp
        with m "1.prems" have a: "str_nat (m div 10) = str_nat (n div 10)"
          and b: "''0123456789'' ! (m mod 10) = ''0123456789'' ! (n mod 10)" by simp_all
        from "1.IH" [OF False a] have "m div 10 = n div 10" .
        moreover from b digit [of "m mod 10" "n mod 10"] have "m mod 10 = n mod 10" by simp
        ultimately show ?thesis by (metis div_mult_mod_eq)
      qed
    qed
  qed
  have fin: "finite {k. base @ ''_'' @ str_nat k @ ''.pdf'' |\<in>| gen}" for base gen
  proof -
    have "inj (\<lambda>k. base @ ''_'' @ str_nat k @ ''.pdf'')"
      by (rule injI) (simp add: inj)
    from finite_vimageI [OF finite_fset [of gen] this] show ?thesis
      by (simp add: vimage_def)
  qed
  show ?thesis
  proof (relation "measure (\<lambda>(base, gen, final, counter).
      if final |\<in>| gen then Suc (card {k. counter \<le> k \<and> base @ ''_'' @ str_nat k @ ''.pdf'' |\<in>| gen}) else 0)")
    show "wf (measure (\<lambda>(base, gen, final, counter).
      if final |\<in>| gen then Suc (card {k. counter \<le> k \<and> base @ ''_'' @ str_nat k @ ''.pdf'' |\<in>| gen}) else 0))"
      by simp
  next
    fix base_name final_new_name :: string and generated :: "string fset" and counter :: nat
    assume "final_new_name |\<in>| generated"
    let ?A = "\<lambda>c. {k. c \<le> k \<and> base_name @ ''_'' @ str_nat k @ ''.pdf'' |\<in>| generated}"
    have f: "finite (?A counter)"
      by (rule finite_subset [OF _ fin [of base_name generated]]) auto
    have "card (?A (counter + 1)) < card (?A counter)"
      if "base_name @ ''_'' @ str_nat counter @ ''.pdf'' |\<in>| generated"
    proof (rule psubset_card_mono [OF f])
      from that have "counter \<in> ?A counter" by simp
      moreover have "counter \<notin> ?A (counter + 1)" by simp
      moreover have "?A (counter + 1) \<subseteq> ?A counter" by auto
      ultimately show "?A (counter + 1) \<subset> ?A counter" by blast
    qed
    then show "((base_name, generated, base_name @ ''_'' @ str_nat counter @ ''.pdf'', counter + 1),
                (base_name, generated, final_new_name, counter))
      \<in> measure (\<lambda>(base, gen, final, counter).
      if final |\<in>| gen then Suc (card {k. counter \<le> k \<and> base @ ''_'' @ str_nat k @ ''.pdf'' |\<in>| gen}) else 0)"
      using \<open>final_new_name |\<in>| generated\<close> by simp
  qed
qed

declare dedup_loop.simps [simp del]

text \<open>An uploaded file: its \<^verbatim>\<open>name\<close> and the bytes \<^verbatim>\<open>getvalue()\<close> returns.\<close>

record uploaded_file =
  file_name :: string
  file_value :: bytes

datatype status = Success | Failed

record result_entry =
  entry_status :: status
  original_name :: string
  new_name :: string

text \<open>The variables the loop updates (lines 90 to 102).\<close>

record batch =
  results :: "result_entry list"
  zip_archive :: "(string \<times> bytes) list"
  success_count :: nat
  fail_count :: nat
  generated_new_names :: "string fset"

definition initial_batch :: batch where
  "initial_batch =
     \<lparr>results = [], zip_archive = [], success_count = 0, fail_count = 0,
      generated_new_names = {||}\<rparr>"

text \<open>The test of line 114: \<^verbatim>\<open>table_data and len(table_data) >= 9\<close>.\<close>

definition usable :: "string list option \<Rightarrow> bool" where
  "usable table_data =
     (case table_data of None \<Rightarrow> False | Some row \<Rightarrow> row \<noteq> [] \<and> length row \<ge> 9)"

text \<open>The files for which the test of line 114 succeeds.\<close>

definition extracts :: "(bytes \<Rightarrow> error + document) \<Rightarrow> uploaded_file \<Rightarrow> bool" where
  "extracts fitz_open uploaded = usable (result (extract_table_data fitz_open (file_value uploaded)))"

text \<open>The body of the loop, lines 105 to 142, without the progress display.\<close>

definition process_file ::
  "(bytes \<Rightarrow> error + document) \<Rightarrow> batch \<Rightarrow> uploaded_file \<Rightarrow> batch" where
  "process_file fitz_open st uploaded =
     (let original_filename = file_name uploaded;
          pdf_bytes = file_value uploaded;
          table_data = result (extract_table_data fitz_open pdf_bytes)
      in if usable table_data then
           (let base_name = join ''_'' (take 9 (get_default [] table_data));
                new = sanitize base_name @ ''.pdf'';
                final_new_name = dedup_loop base_name (generated_new_names st) new 1
            in st\<lparr>generated_new_names := finsert final_new_name (generated_new_names st),
                  zip_archive := zip_archive st @ [(final_new_name, pdf_bytes)],
                  results := results st @
                    [\<lparr>entry_status = Success, original_name = original_filename,
                      new_name = final_new_name\<rparr>],
                  success_count := success_count st + 1\<rparr>)
         else
           st\<lparr>results := results st @
                 [\<lparr>entry_status = Failed, original_name = original_filename,
                   new_name = ''Could not extract required data.''\<rparr>],
              fail_count := fail_count st + 1\<rparr>)"

text \<open>The loop of line 104 over the uploaded files, from the state \<open>st\<close>.\<close>

fun process_files ::
  "(bytes \<Rightarrow> error + document) \<Rightarrow> batch \<Rightarrow> uploaded_file list \<Rightarrow> batch" where
  "process_files fitz_open st [] = st"
| "process_files fitz_open st (uploaded # rest) =
     process_files fitz_open (process_file fitz_open st uploaded) rest"

subsection \<open>The fragments and their order, as the specification words them\<close>

text \<open>
  The definitions of this subsection are written from the specification and from the
  Python language reference, not from the code above: they use neither
  \<^const>\<open>strip\<close> nor \<^const>\<open>py_round\<close>, and the theorems compare the two sides.

  White space, by code point: \<^verbatim>\<open>9\<close> to \<^verbatim>\<open>13\<close>, \<^verbatim>\<open>28\<close> to \<^verbatim>\<open>32\<close>, \<^verbatim>\<open>133\<close> and
  \<^verbatim>\<open>160\<close>. Trimming removes it from the left of a text and from the left of the
  reversed text.
\<close>

definition whitespace :: "char \<Rightarrow> bool" where
  "whitespace c =
     (let n = (of_char c :: nat)
      in (9 \<le> n \<and> n \<le> 13) \<or> (28 \<le> n \<and> n \<le> 32) \<or> n = 133 \<or> n = 160)"

fun trim_left :: "string \<Rightarrow> string" where
  "trim_left [] = []"
| "trim_left (c # cs) = (if whitespace c then trim_left cs else c # cs)"

definition trimmed :: "string \<Rightarrow> string" where
  "trimmed s = rev (trim_left (rev (trim_left s)))"

text \<open>
  The band of a fragment at height \<open>y\<close>: the integer nearest to \<open>y / 5\<close>, and the even
  one of the two when \<open>y / 5\<close> is halfway between them. It is \<open>y / 5 + 1 / 2\<close> rounded
  down, less one when that is an exact odd integer.
\<close>

definition band_of :: "real \<Rightarrow> int" where
  "band_of y =
     (let n = \<lfloor>y / 5 + 1 / 2\<rfloor>
      in if of_int n = y / 5 + 1 / 2 \<and> odd n then n - 1 else n)"

text \<open>
  The fragments step 1 of the specification keeps, written without the loops: the spans
  of the text blocks in reading order, those with non-empty trimmed text and a
  non-empty bounding box, each as the cell of its trimmed text and the first two entries
  of its box.
\<close>

definition kept :: "span \<Rightarrow> bool" where
  "kept s = (trimmed (get_default [] (span_text s)) \<noteq> [] \<and> get_default [] (span_bbox s) \<noteq> [])"

definition span_fragment :: "span \<Rightarrow> cell" where
  "span_fragment s =
     \<lparr>cell_text = trimmed (get_default [] (span_text s)),
      cell_x = get_default [] (span_bbox s) ! 0,
      cell_y = get_default [] (span_bbox s) ! 1\<rparr>"

definition line_span_list :: "line list \<Rightarrow> span list" where
  "line_span_list ls = concat (map (\<lambda>l. get_default [] (line_spans l)) ls)"

definition text_spans :: "block list \<Rightarrow> span list" where
  "text_spans blocks =
     concat (map (\<lambda>b. line_span_list (get_default [] (block_lines b)))
                 (filter (\<lambda>b. block_type b = Some 0) blocks))"

definition kept_fragments :: "block list \<Rightarrow> cell list" where
  "kept_fragments blocks = map span_fragment (filter kept (text_spans blocks))"

text \<open>
  The order of step 2 of the specification: by band first, by \<^verbatim>\<open>x\<close> within a band.
\<close>

definition band_then_x :: "cell \<Rightarrow> cell \<Rightarrow> bool" where
  "band_then_x a b =
     (band_of (cell_y a) < band_of (cell_y b)
      \<or> (band_of (cell_y a) = band_of (cell_y b) \<and> cell_x a \<le> cell_x b))"

subsection \<open>Example documents\<close>

text \<open>A span with the text \<open>t\<close> whose box starts at \<open>(x, y)\<close>.\<close>

definition text_span :: "string \<Rightarrow> real \<Rightarrow> real \<Rightarrow> span" where
  "text_span t x y = \<lparr>span_text = Some t, span_bbox = Some [x, y, x + 20, y + 10]\<rparr>"

text \<open>A page of one text block with one line of the given spans.\<close>

definition one_line_dict :: "span list \<Rightarrow> text_dict" where
  "one_line_dict ss =
     \<lparr>dict_blocks = Some [\<lparr>block_type = Some 0,
                             block_lines = Some [\<lparr>line_spans = Some ss\<rparr>]\<rparr>]\<rparr>"

definition one_line_page :: "span list \<Rightarrow> page" where
  "one_line_page ss = Inr (one_line_dict ss)"

definition full_row_spans :: "span list" where
  "full_row_spans =
     [text_span ''KCZ'' 0 100, text_span ''DMX'' 40 100, text_span ''O'' 70 100,
      text_span ''03'' 90 100, text_span ''TL'' 120 100, text_span ''PR'' 150 100,
      text_span ''004'' 180 100, text_span ''R'' 210 100, text_span ''14'' 240 100,
      text_span ''EXTRA'' 270 100]"

definition full_row :: "string list" where
  "full_row = [''KCZ'', ''DMX'', ''O'', ''03'', ''TL'', ''PR'', ''004'', ''R'', ''14'']"

text \<open>The cells of the spans \<^const>\<open>full_row_spans\<close>.\<close>

definition full_row_cells :: "cell list" where
  "full_row_cells =
     [\<lparr>cell_text = ''KCZ'', cell_x = 0, cell_y = 100\<rparr>,
      \<lparr>cell_text = ''DMX'', cell_x = 40, cell_y = 100\<rparr>,
      \<lparr>cell_text = ''O'', cell_x = 70, cell_y = 100\<rparr>,
      \<lparr>cell_text = ''03'', cell_x = 90, cell_y = 100\<rparr>,
      \<lparr>cell_text = ''TL'', cell_x = 120, cell_y = 100\<rparr>,
      \<lparr>cell_text = ''PR'', cell_x = 150, cell_y = 100\<rparr>,
      \<lparr>cell_text = ''004'', cell_x = 180, cell_y = 100\<rparr>,
      \<lparr>cell_text = ''R'', cell_x = 210, cell_y = 100\<rparr>,
      \<lparr>cell_text = ''14'', cell_x = 240, cell_y = 100\<rparr>,
      \<lparr>cell_text = ''EXTRA'', cell_x = 270, cell_y = 100\<rparr>]"

text \<open>
  The same spans in another order, with a span of white space among them, and the cells
  they give in that order.
\<close>

definition shuffled_row_spans :: "span list" where
  "shuffled_row_spans =
     [text_span ''EXTRA'' 270 100, text_span '' '' 5 100, text_span ''DMX'' 40 100,
      text_span ''KCZ'' 0 100, text_span ''O'' 70 100,
      text_span ''03'' 90 100, text_span ''TL'' 120 100, text_span ''PR'' 150 100,
      text_span ''14'' 240 100, text_span ''004'' 180 100, text_span ''R'' 210 100]"

definition shuffled_row_cells :: "cell list" where
  "shuffled_row_cells =
     [\<lparr>cell_text = ''EXTRA'', cell_x = 270, cell_y = 100\<rparr>,
      \<lparr>cell_text = ''DMX'', cell_x = 40, cell_y = 100\<rparr>,
      \<lparr>cell_text = ''KCZ'', cell_x = 0, cell_y = 100\<rparr>,
      \<lparr>cell_text = ''O'', cell_x = 70, cell_y = 100\<rparr>,
      \<lparr>cell_text = ''03'', cell_x = 90, cell_y = 100\<rparr>,
      \<lparr>cell_text = ''TL'', cell_x = 120, cell_y = 100\<rparr>,
      \<lparr>cell_text = ''PR'', cell_x = 150, cell_y = 100\<rparr>,
      \<lparr>cell_text = ''14'', cell_x = 240, cell_y = 100\<rparr>,
      \<lparr>cell_text = ''004'', cell_x = 180, cell_y = 100\<rparr>,
      \<lparr>cell_text = ''R'', cell_x = 210, cell_y = 100\<rparr>]"

text \<open>
  An anchor alone on its line at the top of a page, the spans of a page that has this
  anchor above the full row, the anchor cell of the full row, and a page with the lone
  anchor only.
\<close>

definition lone_anchor :: cell where
  "lone_anchor = \<lparr>cell_text = ''KCZ'', cell_x = 0, cell_y = 0\<rparr>"

definition two_anchor_spans :: "span list" where
  "two_anchor_spans = text_span ''KCZ'' 0 0 # full_row_spans"

definition first_cell :: cell where
  "first_cell = \<lparr>cell_text = ''KCZ'', cell_x = 0, cell_y = 100\<rparr>"

definition lone_anchor_page :: page where
  "lone_anchor_page = one_line_page [text_span ''KCZ'' 0 0]"

text \<open>
  A page over several bands. The heights \<open>15 / 2\<close> and \<open>25 / 2\<close> are both halfway
  between two bands and both fall into band 2, the even one; \<open>14\<close> is in band 3 and
  \<open>35 / 2\<close> in band 4. One span is white space only, with the no-break space and the
  next-line character, and the anchor has white space on both sides. Then the cells of
  the page as the parser lists them, and as they are sorted.
\<close>

definition banded_spans :: "span list" where
  "banded_spans =
     text_span ''b'' 50 (25 / 2) # text_span [CHR 0xA0, CHR 0x85, CHR 0x09] 5 0
     # text_span ''c'' 5 (35 / 2) # text_span ''a'' 10 (15 / 2) # text_span ''d'' 0 14
     # text_span ([CHR 0xA0] @ ''KCZ '' @ [CHR 0x85]) 0 100 # tl full_row_spans"

definition banded_cells :: "cell list" where
  "banded_cells =
     [\<lparr>cell_text = ''b'', cell_x = 50, cell_y = 25 / 2\<rparr>,
      \<lparr>cell_text = ''c'', cell_x = 5, cell_y = 35 / 2\<rparr>,
      \<lparr>cell_text = ''a'', cell_x = 10, cell_y = 15 / 2\<rparr>,
      \<lparr>cell_text = ''d'', cell_x = 0, cell_y = 14\<rparr>] @ full_row_cells"

definition banded_sorted :: "cell list" where
  "banded_sorted =
     [\<lparr>cell_text = ''a'', cell_x = 10, cell_y = 15 / 2\<rparr>,
      \<lparr>cell_text = ''b'', cell_x = 50, cell_y = 25 / 2\<rparr>,
      \<lparr>cell_text = ''d'', cell_x = 0, cell_y = 14\<rparr>,
      \<lparr>cell_text = ''c'', cell_x = 5, cell_y = 35 / 2\<rparr>] @ full_row_cells"

text \<open>
  A row with a character that file names must not have, a parser that knows three byte
  buffers (the full row, the row with the slash, anything else unreadable), and an
  uploaded file.
\<close>

definition slash_row_spans :: "span list" where
  "slash_row_spans =
     [text_span ''KCZ'' 0 100, text_span ''A/B'' 40 100, text_span ''O'' 70 100,
      text_span ''03'' 90 100, text_span ''TL'' 120 100, text_span ''PR'' 150 100,
      text_span ''004'' 180 100, text_span ''R'' 210 100, text_span ''14'' 240 100]"

definition example_open :: "bytes \<Rightarrow> error + document" where
  "example_open b =
     (if b = [1] then Inr [one_line_page full_row_spans]
      else if b = [2] then Inr [one_line_page slash_row_spans]
      else Inl (FitzError ''cannot open broken document''))"

definition upload :: "string \<Rightarrow> bytes \<Rightarrow> uploaded_file" where
  "upload n b = \<lparr>file_name = n, file_value = b\<rparr>"

text \<open>
  Five sorted cells: the anchor, a cell on its line, a cell 7 units lower, another cell
  on its line, and a cell 20 units lower.
\<close>

definition walk_anchor :: cell where
  "walk_anchor = \<lparr>cell_text = ''KCZ'', cell_x = 0, cell_y = 100\<rparr>"

definition walk_near :: cell where
  "walk_near = \<lparr>cell_text = ''A'', cell_x = 10, cell_y = 102\<rparr>"

definition walk_skipped :: cell where
  "walk_skipped = \<lparr>cell_text = ''B'', cell_x = 20, cell_y = 107\<rparr>"

definition walk_near2 :: cell where
  "walk_near2 = \<lparr>cell_text = ''E'', cell_x = 30, cell_y = 104\<rparr>"

definition walk_far :: cell where
  "walk_far = \<lparr>cell_text = ''C'', cell_x = 40, cell_y = 120\<rparr>"

lemmas walk_defs = walk_anchor_def walk_near_def walk_skipped_def walk_near2_def walk_far_def

lemmas eval_defs =
  text_span_def one_line_dict_def one_line_page_def full_row_spans_def full_row_def
  full_row_cells_def shuffled_row_spans_def shuffled_row_cells_def
  lone_anchor_def two_anchor_spans_def first_cell_def lone_anchor_page_def
  banded_spans_def banded_cells_def banded_sorted_def
  extract_table_data_def page_row_def get_default_def span_cell_def strip_def is_space_def
  sort_cells_def sort_keyfn_def py_round_def anchor_row_def Let_def

section \<open>Properties of the extraction\<close>

subsection \<open>Where a returned row comes from\<close>

lemma collect_row_append: "collect_row cy row cs = row @ collect_row cy [] cs"
proof (induction cs arbitrary: row)
  case Nil
  show ?case by simp
next
  case (Cons c cs)
  have a: "collect_row cy (row @ [cell_text c]) cs = row @ collect_row cy [cell_text c] cs"
    using Cons.IH [of "row @ [cell_text c]"] Cons.IH [of "[cell_text c]"] by simp
  have b: "collect_row cy row cs = row @ collect_row cy [] cs"
    by (rule Cons.IH)
  show ?case by (simp add: a b)
qed

lemma find_row_Some_anchor:
  "find_row cs = Some row \<Longrightarrow>
     \<exists>pre a rest. cs = pre @ a # rest \<and> cell_text a = ''KCZ''
        \<and> 9 \<le> length (anchor_row a rest)
        \<and> row = take 9 (anchor_row a rest)"
proof (induction cs)
  case Nil
  then show ?case by simp
next
  case (Cons c cs)
  show ?case
  proof (cases "cell_text c = ''KCZ'' \<and> 9 \<le> length (anchor_row c cs)")
    case True
    with Cons.prems have "row = take 9 (anchor_row c cs)"
      by (auto simp: Let_def)
    with True have "c # cs = [] @ c # cs \<and> cell_text c = ''KCZ''
        \<and> 9 \<le> length (anchor_row c cs)
        \<and> row = take 9 (anchor_row c cs)" by simp
    then show ?thesis by (intro exI)
  next
    case False
    with Cons.prems have "find_row cs = Some row"
      by (auto simp: Let_def split: if_splits)
    from Cons.IH [OF this] obtain pre a rest where
      "cs = pre @ a # rest" "cell_text a = ''KCZ''"
      "9 \<le> length (anchor_row a rest)"
      "row = take 9 (anchor_row a rest)" by blast
    then have "c # cs = (c # pre) @ a # rest \<and> cell_text a = ''KCZ''
        \<and> 9 \<le> length (anchor_row a rest)
        \<and> row = take 9 (anchor_row a rest)" by simp
    then show ?thesis by (intro exI)
  qed
qed

lemma find_row_shape: "find_row cs = Some row \<Longrightarrow> length row = 9 \<and> row ! 0 = ''KCZ''"
proof -
  assume "find_row cs = Some row"
  from find_row_Some_anchor [OF this] obtain a rest where
    a: "cell_text a = ''KCZ''"
    and l: "9 \<le> length (anchor_row a rest)"
    and r: "row = take 9 (anchor_row a rest)" by auto
  have "anchor_row a rest = cell_text a # collect_row (cell_y a) [] rest"
    using collect_row_append [of "cell_y a" "[cell_text a]" rest] by (simp add: anchor_row_def)
  with a l r show ?thesis by simp
qed

lemma page_row_Some:
  "page_row p = Inr (Some row) \<Longrightarrow> \<exists>d pc. p = Inr d \<and>
     blocks_loop (get_default [] (dict_blocks d)) [] = Inr pc \<and> find_row (sort_cells pc) = Some row"
  by (auto simp: page_row_def split: sum.splits)

lemma pages_loop_Some:
  "result (pages_loop doc) = Some row \<Longrightarrow>
     \<exists>pre p post. doc = pre @ p # post \<and> (\<forall>q \<in> set pre. page_row q = Inr None) \<and> page_row p = Inr (Some row)"
proof (induction doc)
  case Nil
  then show ?case by simp
next
  case (Cons p ps)
  show ?case
  proof (cases "page_row p")
    case (Inl e)
    with Cons.prems show ?thesis by simp
  next
    case (Inr r)
    show ?thesis
    proof (cases r)
      case None
      with Inr Cons.prems have "result (pages_loop ps) = Some row" by simp
      from Cons.IH [OF this] obtain pre q post where
        "ps = pre @ q # post" "\<forall>q \<in> set pre. page_row q = Inr None" "page_row q = Inr (Some row)"
        by blast
      with Inr None show ?thesis
        by (intro exI [of _ "p # pre"] exI [of _ q] exI [of _ post]) simp
    next
      case (Some r')
      with Inr Cons.prems have "page_row p = Inr (Some row)" by simp
      then show ?thesis by (intro exI [of _ "[]"] exI [of _ p] exI [of _ ps]) simp
    qed
  qed
qed

lemma extract_Some:
  "result (extract_table_data fitz_open pdf_bytes) = Some row \<Longrightarrow>
     \<exists>doc. fitz_open pdf_bytes = Inr doc \<and> result (pages_loop doc) = Some row"
  by (auto simp: extract_table_data_def split: sum.splits)

text \<open>
  Claim C1. Whenever \<^verbatim>\<open>extract_table_data\<close> returns a row, whatever the parser gave
  for the byte buffer, the row has exactly nine elements and its first element is the
  anchor \<^verbatim>\<open>KCZ\<close>.
\<close>

theorem extract_row_length_anchor:
  "result (extract_table_data fitz_open pdf_bytes) = Some row \<Longrightarrow>
     length row = 9 \<and> row ! 0 = ''KCZ''"
proof -
  assume "result (extract_table_data fitz_open pdf_bytes) = Some row"
  from extract_Some [OF this] obtain doc where "result (pages_loop doc) = Some row" by blast
  from pages_loop_Some [OF this] obtain p where "page_row p = Inr (Some row)" by blast
  from page_row_Some [OF this] obtain pc where "find_row (sort_cells pc) = Some row" by blast
  then show ?thesis by (rule find_row_shape)
qed

theorem extract_row_length_anchor_witness:
  "result (extract_table_data (\<lambda>b. Inr [one_line_page full_row_spans]) []) = Some full_row
   \<and> length full_row = 9 \<and> full_row ! 0 = ''KCZ''"
proof -
  have h: "result (extract_table_data (\<lambda>b. Inr [one_line_page full_row_spans]) []) = Some full_row"
    by (simp add: eval_defs)
  from extract_row_length_anchor [OF h] h show ?thesis by simp
qed

subsection \<open>The sorted order and the walk along the anchor's line\<close>

lemma py_round_bounds: "r - 1 / 2 \<le> of_int (py_round r) \<and> of_int (py_round r) \<le> r + 1 / 2"
proof -
  define f where "f = \<lfloor>r\<rfloor>"
  have lo: "of_int f \<le> r" and hi: "r < of_int f + 1"
    unfolding f_def by linarith+
  have "py_round r = (if r - of_int f < 1 / 2 then f
         else if 1 / 2 < r - of_int f then f + 1
         else if even f then f else f + 1)"
    by (simp add: py_round_def Let_def f_def)
  with lo hi show ?thesis by (auto split: if_splits)
qed

lemma py_round_upper: "of_int (py_round r) \<le> r + 1 / 2"
  using py_round_bounds [of r] by simp

lemma py_round_lower: "r - 1 / 2 \<le> of_int (py_round r)"
  using py_round_bounds [of r] by simp

lemma band_le_imp_y: 
  assumes "py_round (ya / 5) \<le> py_round (yc / 5)"
  shows "ya - 5 \<le> yc"
proof -
  have "ya / 5 - 1 / 2 \<le> of_int (py_round (ya / 5))" by (rule py_round_lower)
  also have "\<dots> \<le> of_int (py_round (yc / 5))" using assms by simp
  also have "\<dots> \<le> yc / 5 + 1 / 2" by (rule py_round_upper)
  finally show ?thesis by simp
qed

lemma sorted_sort_cells: "sorted (map sort_keyfn (sort_cells pc))"
  by (simp add: sort_cells_def)

lemma after_anchor_y:
  assumes "sort_cells pc = pre @ a # after" and "c \<in> set after"
  shows "cell_y a - 5 \<le> cell_y c"
proof -
  have "sorted (map sort_keyfn (pre @ a # after))"
    using sorted_sort_cells [of pc] assms(1) by simp
  then have "sort_keyfn a \<le> sort_keyfn c"
    using assms(2) by (auto simp: sorted_append)
  then have "py_round (cell_y a / 5) \<le> py_round (cell_y c / 5)"
    by (auto simp: sort_keyfn_def less_eq_prod_def)
  then show ?thesis by (rule band_le_imp_y)
qed

lemma collect_row_closed_form:
  assumes "\<forall>n \<in> set cs. cy - 5 \<le> cell_y n"
  shows "collect_row cy row cs =
     row @ map cell_text (filter (\<lambda>n. \<bar>cell_y n - cy\<bar> < 5)
                            (takeWhile (\<lambda>n. \<not> 10 < \<bar>cell_y n - cy\<bar>) cs))"
  using assms
proof (induction cs arbitrary: row)
  case Nil
  show ?case by simp
next
  case (Cons c cs)
  from Cons.prems have c: "cy - 5 \<le> cell_y c" and cs: "\<forall>n \<in> set cs. cy - 5 \<le> cell_y n"
    by simp_all
  note IH = Cons.IH [OF cs]
  consider (near) "\<bar>cell_y c - cy\<bar> < 5"
    | (skip) "5 \<le> \<bar>cell_y c - cy\<bar>" "\<bar>cell_y c - cy\<bar> \<le> 10"
    | (far) "10 < \<bar>cell_y c - cy\<bar>" by linarith
  then show ?case
  proof cases
    case near
    then show ?thesis using IH [of "row @ [cell_text c]"] by simp
  next
    case skip
    then have "\<not> \<bar>cell_y c - cy\<bar> < 5" "\<not> cy + 10 < cell_y c" by linarith+
    then show ?thesis using IH [of row] skip by simp
  next
    case far
    with c have "\<not> \<bar>cell_y c - cy\<bar> < 5" "cy + 10 < cell_y c" by linarith+
    then show ?thesis using far by simp
  qed
qed

text \<open>
  Claim C3. In the walk after the anchor \<open>a\<close>, a fragment \<open>c\<close> that comes later in the
  sorted order is appended when its \<open>y\<close> is less than 5 from the anchor's, passed over
  with the walk going on when the distance is from 5 to 10, and ends the walk, without
  being appended, when the distance is more than 10 in either direction. The code only
  tests \<^verbatim>\<open>y > current_y + 10\<close>; the sorted order leaves no later fragment more than 5
  above the anchor, so the two tests agree. As a result the anchor's line is the anchor
  text followed by the texts of the near fragments up to the first far one.
\<close>

theorem walk_thresholds:
  assumes "sort_cells potential_cells = pre @ a # mid @ c # rest"
  shows "(\<bar>cell_y c - cell_y a\<bar> < 5 \<longrightarrow>
            collect_row (cell_y a) row (c # rest) = collect_row (cell_y a) (row @ [cell_text c]) rest)
       \<and> (5 \<le> \<bar>cell_y c - cell_y a\<bar> \<and> \<bar>cell_y c - cell_y a\<bar> \<le> 10 \<longrightarrow>
            collect_row (cell_y a) row (c # rest) = collect_row (cell_y a) row rest)
       \<and> (10 < \<bar>cell_y c - cell_y a\<bar> \<longrightarrow>
            collect_row (cell_y a) row (c # rest) = row)
       \<and> anchor_row a (mid @ c # rest) =
            cell_text a # map cell_text
              (filter (\<lambda>n. \<bar>cell_y n - cell_y a\<bar> < 5)
                 (takeWhile (\<lambda>n. \<not> 10 < \<bar>cell_y n - cell_y a\<bar>) (mid @ c # rest)))"
proof -
  have after: "cell_y a - 5 \<le> cell_y n" if "n \<in> set (mid @ c # rest)" for n
    using after_anchor_y [OF assms that] .
  then have c: "cell_y a - 5 \<le> cell_y c" by simp
  have 1: "\<bar>cell_y c - cell_y a\<bar> < 5 \<longrightarrow>
     collect_row (cell_y a) row (c # rest) = collect_row (cell_y a) (row @ [cell_text c]) rest"
    by simp
  have 2: "5 \<le> \<bar>cell_y c - cell_y a\<bar> \<and> \<bar>cell_y c - cell_y a\<bar> \<le> 10 \<longrightarrow>
     collect_row (cell_y a) row (c # rest) = collect_row (cell_y a) row rest"
    by auto
  have 3: "10 < \<bar>cell_y c - cell_y a\<bar> \<longrightarrow> collect_row (cell_y a) row (c # rest) = row"
    using c by auto
  have 4: "anchor_row a (mid @ c # rest) =
            cell_text a # map cell_text
              (filter (\<lambda>n. \<bar>cell_y n - cell_y a\<bar> < 5)
                 (takeWhile (\<lambda>n. \<not> 10 < \<bar>cell_y n - cell_y a\<bar>) (mid @ c # rest)))"
    unfolding anchor_row_def
    using collect_row_closed_form [of "mid @ c # rest" "cell_y a" "[cell_text a]"] after
    by simp
  from 1 2 3 4 show ?thesis by blast
qed

theorem walk_thresholds_witness:
  "sort_cells [walk_anchor, walk_near, walk_skipped, walk_near2, walk_far] =
     [walk_anchor, walk_near, walk_skipped, walk_near2, walk_far]
   \<and> \<bar>cell_y walk_near - cell_y walk_anchor\<bar> < 5
   \<and> collect_row (cell_y walk_anchor) [''KCZ''] [walk_near, walk_skipped, walk_near2, walk_far] =
       collect_row (cell_y walk_anchor) [''KCZ'', ''A''] [walk_skipped, walk_near2, walk_far]
   \<and> 5 \<le> \<bar>cell_y walk_skipped - cell_y walk_anchor\<bar>
   \<and> \<bar>cell_y walk_skipped - cell_y walk_anchor\<bar> \<le> 10
   \<and> collect_row (cell_y walk_anchor) [''KCZ'', ''A''] [walk_skipped, walk_near2, walk_far] =
       collect_row (cell_y walk_anchor) [''KCZ'', ''A''] [walk_near2, walk_far]
   \<and> 10 < \<bar>cell_y walk_far - cell_y walk_anchor\<bar>
   \<and> collect_row (cell_y walk_anchor) [''KCZ'', ''A'', ''E''] [walk_far] = [''KCZ'', ''A'', ''E'']
   \<and> anchor_row walk_anchor [walk_near, walk_skipped, walk_near2, walk_far] = [''KCZ'', ''A'', ''E'']"
proof -
  let ?cs = "[walk_anchor, walk_near, walk_skipped, walk_near2, walk_far]"
  have s: "sort_cells ?cs = ?cs"
    by (simp add: walk_defs sort_cells_def sort_keyfn_def py_round_def Let_def)
  have s1: "sort_cells ?cs = [] @ walk_anchor # [] @ walk_near # [walk_skipped, walk_near2, walk_far]"
    and s2: "sort_cells ?cs = [] @ walk_anchor # [walk_near] @ walk_skipped # [walk_near2, walk_far]"
    and s3: "sort_cells ?cs = [] @ walk_anchor # [walk_near, walk_skipped, walk_near2] @ walk_far # []"
    using s by simp_all
  have t: "cell_text walk_near = ''A''" "cell_text walk_near2 = ''E''"
    by (simp_all add: walk_defs)
  have d: "\<bar>cell_y walk_near - cell_y walk_anchor\<bar> < 5"
    "5 \<le> \<bar>cell_y walk_skipped - cell_y walk_anchor\<bar>"
    "\<bar>cell_y walk_skipped - cell_y walk_anchor\<bar> \<le> 10"
    "10 < \<bar>cell_y walk_far - cell_y walk_anchor\<bar>"
    by (simp_all add: walk_defs)
  have n: "\<bar>cell_y walk_near2 - cell_y walk_anchor\<bar> < 5"
    by (simp add: walk_defs)
  have a: "cell_text walk_anchor = ''KCZ''"
    by (simp add: walk_defs)
  from walk_thresholds [OF s1, of "[''KCZ'']"] d t
  have 1: "collect_row (cell_y walk_anchor) [''KCZ''] [walk_near, walk_skipped, walk_near2, walk_far] =
       collect_row (cell_y walk_anchor) [''KCZ'', ''A''] [walk_skipped, walk_near2, walk_far]"
    by simp
  from walk_thresholds [OF s2, of "[''KCZ'', ''A'']"] d
  have 2: "collect_row (cell_y walk_anchor) [''KCZ'', ''A''] [walk_skipped, walk_near2, walk_far] =
       collect_row (cell_y walk_anchor) [''KCZ'', ''A''] [walk_near2, walk_far]"
    by simp
  from walk_thresholds [OF s3, of "[''KCZ'', ''A'', ''E'']"] d
  have 3: "collect_row (cell_y walk_anchor) [''KCZ'', ''A'', ''E''] [walk_far] = [''KCZ'', ''A'', ''E'']"
    by simp
  from walk_thresholds [OF s1, of "[]"] d n t a
  have 4: "anchor_row walk_anchor [walk_near, walk_skipped, walk_near2, walk_far] = [''KCZ'', ''A'', ''E'']"
    by simp
  from s d 1 2 3 4 show ?thesis by simp
qed

subsection \<open>The kept fragments and the order of the row\<close>

text \<open>
  What the specification's words fix: the band is within a half of \<open>y / 5\<close> and even
  when exactly a half away; the trimmed text is the text less white space on the left
  and on the right, and when not empty it begins and ends with a character that is not
  white space.
\<close>

lemma band_of_nearest:
  "\<bar>y / 5 - of_int (band_of y)\<bar> \<le> 1 / 2
   \<and> (\<bar>y / 5 - of_int (band_of y)\<bar> = 1 / 2 \<longrightarrow> even (band_of y))"
proof -
  define r where "r = y / 5"
  define n where "n = \<lfloor>r + 1 / 2\<rfloor>"
  have lo: "of_int n \<le> r + 1 / 2" and hi: "r + 1 / 2 < of_int n + 1"
    unfolding n_def by linarith+
  have b: "band_of y = (if of_int n = r + 1 / 2 \<and> odd n then n - 1 else n)"
    by (simp add: band_of_def Let_def r_def n_def)
  show ?thesis
  proof (cases "of_int n = r + 1 / 2 \<and> odd n")
    case True
    then have "band_of y = n - 1" by (simp add: b)
    moreover from True have "r - of_int (n - 1) = 1 / 2" by simp
    ultimately show ?thesis using True by (simp add: r_def [symmetric])
  next
    case False
    then have e: "band_of y = n" by (simp add: b)
    from lo hi have "\<bar>r - of_int n\<bar> \<le> 1 / 2" by linarith
    moreover have "even n" if "\<bar>r - of_int n\<bar> = 1 / 2"
    proof -
      from that hi have "of_int n = r + 1 / 2" by linarith
      with False show ?thesis by simp
    qed
    ultimately show ?thesis by (simp add: e r_def [symmetric])
  qed
qed

lemma trim_left_parts:
  "\<exists>l. s = l @ trim_left s \<and> (\<forall>c \<in> set l. whitespace c)
       \<and> (trim_left s \<noteq> [] \<longrightarrow> \<not> whitespace (hd (trim_left s)))"
proof (induction s)
  case Nil
  show ?case by simp
next
  case (Cons a s)
  show ?case
  proof (cases "whitespace a")
    case True
    from Cons.IH obtain l where "s = l @ trim_left s" "\<forall>c \<in> set l. whitespace c"
      "trim_left s \<noteq> [] \<longrightarrow> \<not> whitespace (hd (trim_left s))" by blast
    with True have "a # s = (a # l) @ trim_left (a # s) \<and> (\<forall>c \<in> set (a # l). whitespace c)
       \<and> (trim_left (a # s) \<noteq> [] \<longrightarrow> \<not> whitespace (hd (trim_left (a # s))))" by simp
    then show ?thesis by blast
  next
    case False
    then have "a # s = [] @ trim_left (a # s) \<and> (\<forall>c \<in> set []. whitespace c)
       \<and> (trim_left (a # s) \<noteq> [] \<longrightarrow> \<not> whitespace (hd (trim_left (a # s))))" by simp
    then show ?thesis by blast
  qed
qed

lemma trimmed_parts:
  "\<exists>l r. s = l @ trimmed s @ r \<and> (\<forall>c \<in> set l. whitespace c) \<and> (\<forall>c \<in> set r. whitespace c)
     \<and> (trimmed s \<noteq> [] \<longrightarrow> \<not> whitespace (hd (trimmed s)) \<and> \<not> whitespace (last (trimmed s)))"
proof -
  from trim_left_parts [of s] obtain l where
    l: "s = l @ trim_left s" "\<forall>c \<in> set l. whitespace c"
    and lh: "trim_left s \<noteq> [] \<longrightarrow> \<not> whitespace (hd (trim_left s))" by blast
  from trim_left_parts [of "rev (trim_left s)"] obtain r where
    r: "rev (trim_left s) = r @ trim_left (rev (trim_left s))" "\<forall>c \<in> set r. whitespace c"
    and rh: "trim_left (rev (trim_left s)) \<noteq> [] \<longrightarrow>
      \<not> whitespace (hd (trim_left (rev (trim_left s))))" by blast
  have t: "trim_left s = trimmed s @ rev r"
    using arg_cong [OF r(1), of rev] by (simp add: trimmed_def)
  have s: "s = l @ trimmed s @ rev r" using l(1) t by simp
  have ends: "\<not> whitespace (hd (trimmed s)) \<and> \<not> whitespace (last (trimmed s))"
    if ne: "trimmed s \<noteq> []"
  proof -
    from ne have "trim_left (rev (trim_left s)) \<noteq> []" by (simp add: trimmed_def)
    with rh have "\<not> whitespace (hd (trim_left (rev (trim_left s))))" by simp
    then have la: "\<not> whitespace (last (trimmed s))"
      using ne by (simp add: trimmed_def hd_rev last_rev)
    from ne t have "trim_left s \<noteq> []" "hd (trim_left s) = hd (trimmed s)" by simp_all
    with lh have "\<not> whitespace (hd (trimmed s))" by simp
    with la show ?thesis by simp
  qed
  from s l(2) r(2) ends have "s = l @ trimmed s @ rev r \<and> (\<forall>c \<in> set l. whitespace c)
     \<and> (\<forall>c \<in> set (rev r). whitespace c)
     \<and> (trimmed s \<noteq> [] \<longrightarrow> \<not> whitespace (hd (trimmed s)) \<and> \<not> whitespace (last (trimmed s)))"
    by simp
  then show ?thesis by blast
qed

text \<open>The code's \<^verbatim>\<open>strip\<close> and \<^verbatim>\<open>round\<close> against the specification's words.\<close>

lemma is_space_whitespace: "is_space c = whitespace c"
proof
  assume "is_space c"
  then show "whitespace c" by (auto simp: is_space_def whitespace_def)
next
  assume w: "whitespace c"
  let ?ws = "[CHR 0x09, CHR 0x0A, CHR 0x0B, CHR 0x0C, CHR 0x0D,
              CHR 0x1C, CHR 0x1D, CHR 0x1E, CHR 0x1F, CHR 0x20, CHR 0x85, CHR 0xA0]"
  from w have "(of_char c :: nat) \<in> {9, 10, 11, 12, 13, 28, 29, 30, 31, 32, 133, 160}"
    unfolding whitespace_def Let_def by auto
  also have "{9, 10, 11, 12, 13, 28, 29, 30, 31, 32, 133, 160} = (of_char ` set ?ws :: nat set)"
    by simp
  finally have "c \<in> set ?ws"
    by (simp only: inj_image_mem_iff [OF inj_of_char])
  then show "is_space c" by (simp add: is_space_def)
qed

lemma trim_left_dropWhile: "trim_left s = dropWhile is_space s"
  by (induction s) (simp_all add: is_space_whitespace)

lemma strip_trimmed: "strip s = trimmed s"
  by (simp add: strip_def trimmed_def trim_left_dropWhile)

lemma py_round_band_of: "py_round (y / 5) = band_of y"
proof -
  define r where "r = y / 5"
  define f where "f = \<lfloor>r\<rfloor>"
  have lo: "of_int f \<le> r" and hi: "r < of_int f + 1"
    unfolding f_def by linarith+
  have p: "py_round r = (if r - of_int f < 1 / 2 then f
         else if 1 / 2 < r - of_int f then f + 1
         else if even f then f else f + 1)"
    by (simp add: py_round_def Let_def f_def)
  have b: "band_of y = (if of_int \<lfloor>r + 1 / 2\<rfloor> = r + 1 / 2 \<and> odd \<lfloor>r + 1 / 2\<rfloor>
       then \<lfloor>r + 1 / 2\<rfloor> - 1 else \<lfloor>r + 1 / 2\<rfloor>)"
    by (simp add: band_of_def Let_def r_def)
  consider (low) "r - of_int f < 1 / 2" | (high) "1 / 2 < r - of_int f" | (tie) "r - of_int f = 1 / 2"
    by linarith
  then have "py_round r = band_of y"
  proof cases
    case low
    with lo have "\<lfloor>r + 1 / 2\<rfloor> = f" by (intro floor_unique) simp_all
    moreover from lo have "of_int f \<noteq> r + 1 / 2" by linarith
    ultimately show ?thesis using low by (simp add: p b)
  next
    case high
    with hi have n: "\<lfloor>r + 1 / 2\<rfloor> = f + 1" by (intro floor_unique) simp_all
    from high have "of_int (f + 1) \<noteq> r + 1 / 2" by auto
    with n show ?thesis using high by (simp add: p b)
  next
    case tie
    then have n: "\<lfloor>r + 1 / 2\<rfloor> = f + 1" by (intro floor_unique) simp_all
    from tie have "of_int (f + 1) = r + 1 / 2" by simp
    with n show ?thesis using tie by (simp add: p b)
  qed
  then show ?thesis by (simp add: r_def)
qed

lemma span_cell_None: "span_cell s = Inr None \<Longrightarrow> \<not> kept s"
  by (auto simp: span_cell_def kept_def strip_trimmed Let_def split: if_splits list.splits)

lemma span_cell_Some: "span_cell s = Inr (Some c) \<Longrightarrow> kept s \<and> c = span_fragment s"
  by (auto simp: span_cell_def kept_def span_fragment_def strip_trimmed Let_def
      split: if_splits list.splits)

lemma spans_loop_kept:
  "spans_loop ss acc = Inr pc \<Longrightarrow> pc = acc @ map span_fragment (filter kept ss)"
proof (induction ss arbitrary: acc)
  case Nil
  then show ?case by simp
next
  case (Cons s ss)
  show ?case
  proof (cases "span_cell s")
    case (Inl e)
    with Cons.prems show ?thesis by simp
  next
    case (Inr r)
    show ?thesis
    proof (cases r)
      case None
      with Inr Cons.prems have "spans_loop ss acc = Inr pc" by simp
      from Cons.IH [OF this] span_cell_None [of s] Inr None show ?thesis by simp
    next
      case (Some c)
      with Inr Cons.prems have "spans_loop ss (acc @ [c]) = Inr pc" by simp
      from Cons.IH [OF this] span_cell_Some [of s c] Inr Some show ?thesis by simp
    qed
  qed
qed

lemma lines_loop_kept:
  "lines_loop ls acc = Inr pc \<Longrightarrow> pc = acc @ map span_fragment (filter kept (line_span_list ls))"
proof (induction ls arbitrary: acc)
  case Nil
  then show ?case by (simp add: line_span_list_def)
next
  case (Cons l ls)
  from Cons.prems obtain mid where
    m: "spans_loop (get_default [] (line_spans l)) acc = Inr mid" and r: "lines_loop ls mid = Inr pc"
    by (auto split: sum.splits)
  from spans_loop_kept [OF m] Cons.IH [OF r] show ?case by (simp add: line_span_list_def)
qed

lemma blocks_loop_kept:
  "blocks_loop bs acc = Inr pc \<Longrightarrow> pc = acc @ map span_fragment (filter kept (text_spans bs))"
proof (induction bs arbitrary: acc)
  case Nil
  then show ?case by (simp add: text_spans_def)
next
  case (Cons b bs)
  show ?case
  proof (cases "block_type b = Some 0")
    case True
    with Cons.prems obtain mid where
      m: "lines_loop (get_default [] (block_lines b)) acc = Inr mid" and r: "blocks_loop bs mid = Inr pc"
      by (auto split: sum.splits)
    from lines_loop_kept [OF m] Cons.IH [OF r] True show ?thesis by (simp add: text_spans_def)
  next
    case False
    with Cons.prems have "blocks_loop bs acc = Inr pc" by simp
    from Cons.IH [OF this] False show ?thesis by (simp add: text_spans_def)
  qed
qed

lemma collect_row_subseq: "subseq (collect_row cy [] cs) (map cell_text cs)"
proof (induction cs)
  case Nil
  show ?case by simp
next
  case (Cons c cs)
  have "collect_row cy [cell_text c] cs = cell_text c # collect_row cy [] cs"
    using collect_row_append [of cy "[cell_text c]" cs] by simp
  with Cons.IH show ?case by (auto intro: subseq_Cons')
qed

lemma find_row_subseq: "find_row cs = Some row \<Longrightarrow> subseq row (map cell_text cs)"
proof -
  assume "find_row cs = Some row"
  from find_row_Some_anchor [OF this] obtain pre a rest where
    cs: "cs = pre @ a # rest" and r: "row = take 9 (anchor_row a rest)" by auto
  have ar: "anchor_row a rest = cell_text a # collect_row (cell_y a) [] rest"
    using collect_row_append [of "cell_y a" "[cell_text a]" rest] by (simp add: anchor_row_def)
  have "subseq (anchor_row a rest) (map cell_text (a # rest))"
    using collect_row_subseq [of "cell_y a" rest] by (simp add: ar)
  then have "subseq (anchor_row a rest) (map cell_text cs)"
    unfolding cs by (simp add: list_emb_append2)
  moreover have "subseq row (anchor_row a rest)"
    unfolding r by (metis append_take_drop_id prefix_def prefix_imp_subseq)
  ultimately show ?thesis using subseq_order.trans by blast
qed

lemma sort_cells_band_then_x: "sorted_wrt band_then_x (sort_cells pc)"
proof -
  have "sorted_wrt (\<lambda>a b. sort_keyfn a \<le> sort_keyfn b) (sort_cells pc)"
    using sorted_sort_cells [of pc] by (simp add: sorted_map)
  moreover have "sort_keyfn a \<le> sort_keyfn b \<Longrightarrow> band_then_x a b" for a b
    by (auto simp: sort_keyfn_def band_then_x_def less_eq_prod_def py_round_band_of)
  ultimately show ?thesis by (rule sorted_wrt_mono_rel [rotated]) simp
qed

text \<open>
  Claim C7. On a page whose spans raise nothing, the cells that are sorted are the kept
  fragments of the specification (non-empty trimmed text, non-empty bounding box);
  sorting permutes them into the order by band first, the integer nearest to \<open>y / 5\<close>
  with ties to the even one, and by \<^verbatim>\<open>x\<close> within a band; and a row the page returns
  lists its elements in that order.
\<close>

theorem cells_sorted_by_band_then_x:
  assumes "blocks_loop (get_default [] (dict_blocks d)) [] = Inr potential_cells"
  shows "potential_cells = kept_fragments (get_default [] (dict_blocks d))
       \<and> mset (sort_cells potential_cells) = mset potential_cells
       \<and> sorted_wrt band_then_x (sort_cells potential_cells)
       \<and> (\<forall>row. page_row (Inr d) = Inr (Some row) \<longrightarrow>
             subseq row (map cell_text (sort_cells potential_cells)))"
proof -
  have 1: "potential_cells = kept_fragments (get_default [] (dict_blocks d))"
    using blocks_loop_kept [OF assms] by (simp add: kept_fragments_def)
  have 2: "mset (sort_cells potential_cells) = mset potential_cells"
    by (simp add: sort_cells_def)
  have 3: "sorted_wrt band_then_x (sort_cells potential_cells)"
    by (rule sort_cells_band_then_x)
  have 4: "subseq row (map cell_text (sort_cells potential_cells))"
    if "page_row (Inr d) = Inr (Some row)" for row
  proof -
    from that assms have "find_row (sort_cells potential_cells) = Some row"
      by (simp add: page_row_def)
    then show ?thesis by (rule find_row_subseq)
  qed
  from 1 2 3 4 show ?thesis by blast
qed

theorem cells_sorted_by_band_then_x_witness:
  "blocks_loop (get_default [] (dict_blocks (one_line_dict banded_spans))) [] = Inr banded_cells
   \<and> banded_cells = kept_fragments (get_default [] (dict_blocks (one_line_dict banded_spans)))
   \<and> mset (sort_cells banded_cells) = mset banded_cells
   \<and> sort_cells banded_cells = banded_sorted
   \<and> map (\<lambda>c. band_of (cell_y c)) (take 5 banded_sorted) = [2, 2, 3, 4, 20]
   \<and> sorted_wrt band_then_x banded_sorted
   \<and> page_row (Inr (one_line_dict banded_spans)) = Inr (Some full_row)
   \<and> subseq full_row (map cell_text banded_sorted)"
proof -
  have c: "blocks_loop (get_default [] (dict_blocks (one_line_dict banded_spans))) [] =
     Inr banded_cells"
    by (simp add: eval_defs)
  have s: "sort_cells banded_cells = banded_sorted"
    by (simp add: eval_defs)
  have b: "map (\<lambda>c. band_of (cell_y c)) (take 5 banded_sorted) = [2, 2, 3, 4, 20]"
    by (simp add: banded_sorted_def full_row_cells_def band_of_def Let_def del: of_int_floor_cancel)
  have r: "page_row (Inr (one_line_dict banded_spans)) = Inr (Some full_row)"
    by (simp add: eval_defs)
  from cells_sorted_by_band_then_x [OF c] c r b show ?thesis unfolding s by blast
qed

subsection \<open>The example pages, evaluated\<close>

lemma shuffled_cells:
  "blocks_loop (get_default [] (dict_blocks (one_line_dict shuffled_row_spans))) [] = Inr shuffled_row_cells"
  by (simp add: eval_defs)

lemma shuffled_sorted: "sort_cells shuffled_row_cells = full_row_cells"
  by (simp add: eval_defs)

lemma shuffled_page_row: "page_row (Inr (one_line_dict shuffled_row_spans)) = Inr (Some full_row)"
  by (simp add: eval_defs)

lemma shuffled_mset: "mset shuffled_row_cells = mset full_row_cells"
  by (simp add: eval_defs)

lemma find_full_row: "find_row full_row_cells = Some full_row"
  by (simp add: eval_defs)

lemma sorted_full_row_cells: "sorted (map sort_keyfn full_row_cells)"
  by (simp add: eval_defs less_eq_prod_def)

lemma keys_full_row_cells: "distinct (map sort_keyfn full_row_cells)"
  by (simp add: eval_defs)

lemma filter_eq_distinct: "distinct ys \<Longrightarrow> k \<in> set ys \<Longrightarrow> filter (\<lambda>x. k = x) ys = [k]"
  by (induction ys) (auto simp: filter_empty_conv)

lemma sort_key_unique:
  assumes "mset xs = mset ys" and "sorted (map f ys)" and "distinct (map f ys)"
  shows "sort_key f xs = ys"
proof (rule properties_for_sort_key)
  show "mset ys = mset xs" using assms(1) by simp
  show "sorted (map f ys)" by (rule assms(2))
  fix k assume k: "k \<in> set ys"
  have d: "distinct ys" using assms(3) by (rule distinct_map [THEN iffD1, THEN conjunct1])
  have i: "inj_on f (set ys)" using assms(3) by (simp add: distinct_map)
  have "filter (\<lambda>x. f k = f x) ys = filter (\<lambda>x. k = x) ys"
    using i k by (intro filter_cong) (auto dest: inj_onD)
  also have "\<dots> = [k]" using d k by (rule filter_eq_distinct)
  finally have y: "filter (\<lambda>x. f k = f x) ys = [k]" .
  have "mset (filter (\<lambda>x. f k = f x) xs) = mset (filter (\<lambda>x. f k = f x) ys)"
    using assms(1) by simp
  with y have "mset (filter (\<lambda>x. f k = f x) xs) = {#k#}" by simp
  then have "filter (\<lambda>x. f k = f x) xs = [k]" by (simp only: mset_single_iff)
  with y show "filter (\<lambda>x. f k = f x) ys = filter (\<lambda>x. f k = f x) xs" by simp
qed

lemma lone_anchor_page_row: "page_row lone_anchor_page = Inr None"
  by (simp add: eval_defs)

lemma two_anchor_cells:
  "blocks_loop (get_default [] (dict_blocks (one_line_dict two_anchor_spans))) [] =
     Inr (lone_anchor # full_row_cells)"
  by (simp add: eval_defs)

lemma two_anchor_sorted:
  "sort_cells (lone_anchor # full_row_cells) = [lone_anchor] @ first_cell # tl full_row_cells"
  by (simp add: eval_defs)

lemma lone_anchor_row: "anchor_row lone_anchor (first_cell # tl full_row_cells) = [''KCZ'']"
  by (simp add: eval_defs)

lemma first_cell_row: "anchor_row first_cell (tl full_row_cells) = full_row @ [''EXTRA'']"
  by (simp add: eval_defs)

subsection \<open>The first qualifying anchor of the first qualifying page\<close>

lemma pages_loop_skip:
  "\<forall>q \<in> set pre. page_row q = Inr None \<Longrightarrow> pages_loop (pre @ ps) = pages_loop ps"
  by (induction pre) simp_all

lemma find_row_first:
  assumes "\<forall>b1 b b2. before = b1 @ b # b2 \<longrightarrow> cell_text b = ''KCZ'' \<longrightarrow>
             length (anchor_row b (b2 @ a # after)) < 9"
    and "cell_text a = ''KCZ''" and "9 \<le> length (anchor_row a after)"
  shows "find_row (before @ a # after) = Some (take 9 (anchor_row a after))"
  using assms(1)
proof (induction before)
  case Nil
  from assms(2,3) show ?case by simp
next
  case (Cons b bs)
  have rest: "\<forall>b1 b' b2. bs = b1 @ b' # b2 \<longrightarrow> cell_text b' = ''KCZ'' \<longrightarrow>
             length (anchor_row b' (b2 @ a # after)) < 9"
  proof (intro allI impI)
    fix b1 b' b2 assume "bs = b1 @ b' # b2" "cell_text b' = ''KCZ''"
    then have "b # bs = (b # b1) @ b' # b2" by simp
    with Cons.prems \<open>cell_text b' = ''KCZ''\<close> show "length (anchor_row b' (b2 @ a # after)) < 9"
      by blast
  qed
  have here: "cell_text b = ''KCZ'' \<Longrightarrow> length (anchor_row b (bs @ a # after)) < 9"
    using Cons.prems [rule_format, of "[]" b bs] by simp
  show ?case using Cons.IH [OF rest] here by (auto simp: Let_def)
qed

text \<open>
  Claim C8. A one-page document whose fragments are the ten cells of
  \<^const>\<open>full_row_cells\<close>, in whatever order the parser lists them, gives exactly the
  nine tokens from \<^verbatim>\<open>KCZ\<close> to \<^verbatim>\<open>14\<close>: \<^verbatim>\<open>EXTRA\<close> is cut off by the limit of nine
  elements. The handle is closed and nothing is reported.
\<close>

theorem full_row_scenario:
  assumes "fitz_open pdf_bytes = Inr [Inr d]"
    and "blocks_loop (get_default [] (dict_blocks d)) [] = Inr potential_cells"
    and "mset potential_cells = mset full_row_cells"
  shows "extract_table_data fitz_open pdf_bytes =
     \<lparr>result = Some [''KCZ'', ''DMX'', ''O'', ''03'', ''TL'', ''PR'', ''004'', ''R'', ''14''],
      st_errors = [], handle = Closed\<rparr>"
proof -
  have "sort_cells potential_cells = full_row_cells"
    unfolding sort_cells_def
    using assms(3) sorted_full_row_cells keys_full_row_cells by (rule sort_key_unique)
  then have "page_row (Inr d) = Inr (Some full_row)"
    using assms(2) find_full_row by (simp add: page_row_def)
  then show ?thesis
    using assms(1) by (simp add: extract_table_data_def full_row_def)
qed

theorem full_row_scenario_witness:
  "extract_table_data (\<lambda>b. Inr [Inr (one_line_dict shuffled_row_spans)]) [] =
     \<lparr>result = Some [''KCZ'', ''DMX'', ''O'', ''03'', ''TL'', ''PR'', ''004'', ''R'', ''14''],
      st_errors = [], handle = Closed\<rparr>"
  by (rule full_row_scenario [OF refl shuffled_cells shuffled_mset])

text \<open>
  Claim C6. Pages are visited in document order. When the pages before \<open>Inr d\<close> give
  no row, and on the page \<open>Inr d\<close> the anchor \<open>a\<close> is the first in the sorted order whose
  line has at least nine elements, the call returns the first nine elements of that
  line, whatever the later cells of the page and the later pages \<open>post\<close> are (even
  pages that would raise or give another row).
\<close>

theorem first_qualifying_row_wins:
  assumes "fitz_open pdf_bytes = Inr (pre @ Inr d # post)"
    and "\<forall>q \<in> set pre. page_row q = Inr None"
    and "blocks_loop (get_default [] (dict_blocks d)) [] = Inr potential_cells"
    and "sort_cells potential_cells = before @ a # after"
    and "\<forall>b1 b b2. before = b1 @ b # b2 \<longrightarrow> cell_text b = ''KCZ'' \<longrightarrow>
           length (anchor_row b (b2 @ a # after)) < 9"
    and "cell_text a = ''KCZ''" and "9 \<le> length (anchor_row a after)"
  shows "extract_table_data fitz_open pdf_bytes =
     \<lparr>result = Some (take 9 (anchor_row a after)), st_errors = [], handle = Closed\<rparr>
     \<and> length (take 9 (anchor_row a after)) = 9"
proof -
  have "find_row (sort_cells potential_cells) = Some (take 9 (anchor_row a after))"
    unfolding assms(4) using assms(5,6,7) by (rule find_row_first)
  then have "page_row (Inr d) = Inr (Some (take 9 (anchor_row a after)))"
    using assms(3) by (simp add: page_row_def)
  then have "pages_loop (Inr d # post) =
      \<lparr>result = Some (take 9 (anchor_row a after)), st_errors = [], handle = Closed\<rparr>"
    by simp
  with pages_loop_skip [OF assms(2), of "Inr d # post"] assms(1,7) show ?thesis
    by (simp add: extract_table_data_def)
qed

theorem first_qualifying_row_wins_witness:
  "page_row lone_anchor_page = Inr None
   \<and> sort_cells (lone_anchor # full_row_cells) = [lone_anchor] @ first_cell # tl full_row_cells
   \<and> length (anchor_row lone_anchor (first_cell # tl full_row_cells)) < 9
   \<and> cell_text first_cell = ''KCZ''
   \<and> anchor_row first_cell (tl full_row_cells) = full_row @ [''EXTRA'']
   \<and> extract_table_data
        (\<lambda>b. Inr ([lone_anchor_page] @ Inr (one_line_dict two_anchor_spans) #
                   [Inl (FitzError ''unreadable page''), one_line_page shuffled_row_spans])) [] =
       \<lparr>result = Some full_row, st_errors = [], handle = Closed\<rparr>"
proof -
  have pre: "\<forall>q \<in> set [lone_anchor_page]. page_row q = Inr None"
    by (simp add: lone_anchor_page_row)
  have before: "\<forall>b1 b b2. [lone_anchor] = b1 @ b # b2 \<longrightarrow> cell_text b = ''KCZ'' \<longrightarrow>
      length (anchor_row b (b2 @ first_cell # tl full_row_cells)) < 9"
    by (auto simp: Cons_eq_append_conv lone_anchor_row)
  have a: "cell_text first_cell = ''KCZ''" by (simp add: first_cell_def)
  have l: "9 \<le> length (anchor_row first_cell (tl full_row_cells))"
    by (simp add: first_cell_row full_row_def)
  have t: "take 9 (anchor_row first_cell (tl full_row_cells)) = full_row"
    by (simp add: first_cell_row full_row_def)
  have opened: "(\<lambda>b. Inr ([lone_anchor_page] @ Inr (one_line_dict two_anchor_spans) #
                   [Inl (FitzError ''unreadable page''), one_line_page shuffled_row_spans])) [] =
      Inr ([lone_anchor_page] @ Inr (one_line_dict two_anchor_spans) #
                   [Inl (FitzError ''unreadable page''), one_line_page shuffled_row_spans])"
    by simp
  from first_qualifying_row_wins [OF opened pre two_anchor_cells two_anchor_sorted before a l]
  have e: "extract_table_data
        (\<lambda>b. Inr ([lone_anchor_page] @ Inr (one_line_dict two_anchor_spans) #
                   [Inl (FitzError ''unreadable page''), one_line_page shuffled_row_spans])) [] =
       \<lparr>result = Some full_row, st_errors = [], handle = Closed\<rparr>"
    unfolding t by simp
  have r: "length (anchor_row lone_anchor (first_cell # tl full_row_cells)) < 9"
    by (simp add: lone_anchor_row)
  from lone_anchor_page_row two_anchor_sorted r a first_cell_row e show ?thesis
    by blast
qed

subsection \<open>Pages without a row\<close>

lemma find_row_None_iff:
  "find_row cs = None \<longleftrightarrow>
     (\<forall>before a after. cs = before @ a # after \<and> cell_text a = ''KCZ'' \<longrightarrow>
        length (anchor_row a after) < 9)"
proof (induction cs)
  case Nil
  show ?case by simp
next
  case (Cons c cs)
  have split: "(\<forall>before a after. c # cs = before @ a # after \<and> cell_text a = ''KCZ'' \<longrightarrow>
        length (anchor_row a after) < 9) \<longleftrightarrow>
     ((cell_text c = ''KCZ'' \<longrightarrow> length (anchor_row c cs) < 9) \<and>
      (\<forall>before a after. cs = before @ a # after \<and> cell_text a = ''KCZ'' \<longrightarrow>
        length (anchor_row a after) < 9))"
    (is "?L \<longleftrightarrow> ?H \<and> ?R")
  proof
    assume L: ?L
    have ?H using L [rule_format, of "[]" c cs] by simp
    moreover have ?R
    proof (intro allI impI)
      fix before a after assume "cs = before @ a # after \<and> cell_text a = ''KCZ''"
      then have "c # cs = (c # before) @ a # after \<and> cell_text a = ''KCZ''" by simp
      with L show "length (anchor_row a after) < 9" by blast
    qed
    ultimately show "?H \<and> ?R" ..
  next
    assume HR: "?H \<and> ?R"
    show ?L
    proof (intro allI impI)
      fix before a after assume A: "c # cs = before @ a # after \<and> cell_text a = ''KCZ''"
      show "length (anchor_row a after) < 9"
      proof (cases before)
        case Nil
        with A HR show ?thesis by simp
      next
        case (Cons b bs)
        with A have "cs = bs @ a # after \<and> cell_text a = ''KCZ''" by simp
        with HR show ?thesis by blast
      qed
    qed
  qed
  show ?case unfolding split using Cons.IH by (auto simp: Let_def)
qed

lemma pages_loop_not_found_iff:
  "pages_loop doc = \<lparr>result = None, st_errors = [], handle = Closed\<rparr> \<longleftrightarrow>
     (\<forall>q \<in> set doc. page_row q = Inr None)"
  by (induction doc) (auto split: sum.splits option.splits)

text \<open>
  Claim C4, as the code has it. The claim lets only the first \<^verbatim>\<open>KCZ\<close> fragment of a page
  stand as anchor; the loop of line 40 goes on to the later ones. On the page of
  \<^const>\<open>two_anchor_spans\<close> the first anchor's line has one element, and the page
  still gives the full row, from its second anchor.
\<close>

theorem first_anchor_only_counterexample:
  "blocks_loop (get_default [] (dict_blocks (one_line_dict two_anchor_spans))) [] =
     Inr (lone_anchor # full_row_cells)
   \<and> sort_cells (lone_anchor # full_row_cells) = lone_anchor # full_row_cells
   \<and> cell_text lone_anchor = ''KCZ''
   \<and> length (anchor_row lone_anchor full_row_cells) < 9
   \<and> page_row (Inr (one_line_dict two_anchor_spans)) = Inr (Some full_row)"
  by (simp add: eval_defs)

text \<open>
  Claim C4, amended. On each page every fragment whose text is exactly \<^verbatim>\<open>KCZ\<close> is
  tried as the anchor, in the sorted order: the page gives no row exactly when no such
  fragment has a line of nine elements. A page without a row hands over to the next
  page, and the call returns not-found (no row, nothing reported, handle closed)
  exactly when every page is without a row.
\<close>

theorem every_anchor_tried:
  "(find_row cs = None \<longleftrightarrow>
      (\<forall>before a after. cs = before @ a # after \<and> cell_text a = ''KCZ'' \<longrightarrow>
         length (anchor_row a after) < 9))
   \<and> (page_row p = Inr None \<longrightarrow> pages_loop (p # ps) = pages_loop ps)
   \<and> (pages_loop doc = \<lparr>result = None, st_errors = [], handle = Closed\<rparr> \<longleftrightarrow>
        (\<forall>q \<in> set doc. page_row q = Inr None))"
  using find_row_None_iff [of cs] pages_loop_not_found_iff [of doc] by simp

theorem every_anchor_tried_witness:
  "find_row [lone_anchor] = None
   \<and> page_row lone_anchor_page = Inr None
   \<and> pages_loop [lone_anchor_page, one_line_page full_row_spans] =
       pages_loop [one_line_page full_row_spans]
   \<and> pages_loop [lone_anchor_page, lone_anchor_page] =
       \<lparr>result = None, st_errors = [], handle = Closed\<rparr>"
proof -
  have 1: "\<forall>before a after. [lone_anchor] = before @ a # after \<and> cell_text a = ''KCZ'' \<longrightarrow>
         length (anchor_row a after) < 9"
    by (auto simp: Cons_eq_append_conv anchor_row_def)
  have 2: "\<forall>q \<in> set [lone_anchor_page, lone_anchor_page]. page_row q = Inr None"
    by (simp add: lone_anchor_page_row)
  from every_anchor_tried [of "[lone_anchor]" lone_anchor_page "[one_line_page full_row_spans]"
      "[lone_anchor_page, lone_anchor_page]"] 1 2 lone_anchor_page_row
  show ?thesis by blast
qed

subsection \<open>Failures\<close>

text \<open>
  Claim C2, as the code has it. The claim asks for a returned value that tells a parse
  failure from anchor-not-found. Both return \<^verbatim>\<open>None\<close>: a buffer that cannot be opened
  and a document without a row give the same returned value.
\<close>

theorem parse_failure_same_value_counterexample:
  "result (extract_table_data (\<lambda>b. Inl (FitzError ''cannot open broken document'')) []) =
   result (extract_table_data (\<lambda>b. Inr [lone_anchor_page]) [])"
  by (simp add: extract_table_data_def lone_anchor_page_row)

text \<open>
  Claim C2, amended. A parse failure, when opening the buffer or when reading a page, is
  reported through \<^verbatim>\<open>st.error\<close> with its exception, and anchor-not-found reports
  nothing; both return the same value, \<^verbatim>\<open>None\<close>, so the returned value alone does
  not tell them apart. The theorem gives the whole outcome of each case, the state of
  the document handle included.
\<close>

theorem failure_outcomes:
  "(fitz_open pdf_bytes = Inl e \<longrightarrow>
      extract_table_data fitz_open pdf_bytes =
        \<lparr>result = None, st_errors = [e], handle = NotOpened\<rparr>)
   \<and> (fitz_open pdf_bytes = Inr (pre @ p # post) \<and> (\<forall>q \<in> set pre. page_row q = Inr None)
        \<and> page_row p = Inl e \<longrightarrow>
      extract_table_data fitz_open pdf_bytes =
        \<lparr>result = None, st_errors = [e], handle = Opened\<rparr>)
   \<and> (fitz_open pdf_bytes = Inr doc \<and> (\<forall>q \<in> set doc. page_row q = Inr None) \<longrightarrow>
      extract_table_data fitz_open pdf_bytes =
        \<lparr>result = None, st_errors = [], handle = Closed\<rparr>)"
proof -
  have 1: "fitz_open pdf_bytes = Inl e \<longrightarrow>
      extract_table_data fitz_open pdf_bytes =
        \<lparr>result = None, st_errors = [e], handle = NotOpened\<rparr>"
    by (simp add: extract_table_data_def)
  have 2: "extract_table_data fitz_open pdf_bytes =
        \<lparr>result = None, st_errors = [e], handle = Opened\<rparr>"
    if "fitz_open pdf_bytes = Inr (pre @ p # post)" "\<forall>q \<in> set pre. page_row q = Inr None"
      "page_row p = Inl e"
    using that pages_loop_skip [of pre "p # post"] by (simp add: extract_table_data_def)
  have 3: "extract_table_data fitz_open pdf_bytes =
        \<lparr>result = None, st_errors = [], handle = Closed\<rparr>"
    if "fitz_open pdf_bytes = Inr doc" "\<forall>q \<in> set doc. page_row q = Inr None"
    using that pages_loop_skip [of doc "[]"] by (simp add: extract_table_data_def)
  from 1 2 3 show ?thesis by blast
qed

theorem failure_outcomes_witness:
  "extract_table_data (\<lambda>b. Inl (FitzError ''cannot open broken document'')) [] =
     \<lparr>result = None, st_errors = [FitzError ''cannot open broken document''], handle = NotOpened\<rparr>
   \<and> page_row lone_anchor_page = Inr None
   \<and> page_row (Inl (FitzError ''unreadable page'')) = Inl (FitzError ''unreadable page'')
   \<and> extract_table_data
        (\<lambda>b. Inr ([lone_anchor_page] @ Inl (FitzError ''unreadable page'') # [lone_anchor_page])) [] =
       \<lparr>result = None, st_errors = [FitzError ''unreadable page''], handle = Opened\<rparr>
   \<and> extract_table_data (\<lambda>b. Inr [lone_anchor_page, lone_anchor_page]) [] =
       \<lparr>result = None, st_errors = [], handle = Closed\<rparr>"
proof -
  have pre: "\<forall>q \<in> set [lone_anchor_page]. page_row q = Inr None"
    by (simp add: lone_anchor_page_row)
  have all: "\<forall>q \<in> set [lone_anchor_page, lone_anchor_page]. page_row q = Inr None"
    by (simp add: lone_anchor_page_row)
  have raise: "page_row (Inl (FitzError ''unreadable page'')) = Inl (FitzError ''unreadable page'')"
    by (simp add: page_row_def)
  from failure_outcomes
    [of "\<lambda>b. Inl (FitzError ''cannot open broken document'')" "[]"
      "FitzError ''cannot open broken document''" "[]" "Inl (FitzError ''x'')" "[]" "[]"]
  have 1: "extract_table_data (\<lambda>b. Inl (FitzError ''cannot open broken document'')) [] =
     \<lparr>result = None, st_errors = [FitzError ''cannot open broken document''], handle = NotOpened\<rparr>"
    by blast
  from failure_outcomes
    [of "\<lambda>b. Inr ([lone_anchor_page] @ Inl (FitzError ''unreadable page'') # [lone_anchor_page])"
      "[]" "FitzError ''unreadable page''" "[lone_anchor_page]"
      "Inl (FitzError ''unreadable page'')" "[lone_anchor_page]" "[]"]
    pre raise
  have 2: "extract_table_data
        (\<lambda>b. Inr ([lone_anchor_page] @ Inl (FitzError ''unreadable page'') # [lone_anchor_page])) [] =
       \<lparr>result = None, st_errors = [FitzError ''unreadable page''], handle = Opened\<rparr>"
    by blast
  from failure_outcomes
    [of "\<lambda>b. Inr [lone_anchor_page, lone_anchor_page]" "[]" "FitzError ''x''" "[]"
      "Inl (FitzError ''x'')" "[]" "[lone_anchor_page, lone_anchor_page]"] all
  have 3: "extract_table_data (\<lambda>b. Inr [lone_anchor_page, lone_anchor_page]) [] =
       \<lparr>result = None, st_errors = [], handle = Closed\<rparr>"
    by blast
  from 1 lone_anchor_page_row raise 2 3 show ?thesis by blast
qed

text \<open>
  Claim C9 at a document whose second page raises when it is read: the \<^verbatim>\<open>except\<close>
  branch reports the exception and returns without \<^verbatim>\<open>doc.close()\<close>, so the handle
  stays open.
\<close>

theorem exception_leaves_handle_open:
  "extract_table_data (\<lambda>b. Inr [lone_anchor_page, Inl (FitzError ''unreadable page'')]) [] =
     \<lparr>result = None, st_errors = [FitzError ''unreadable page''], handle = Opened\<rparr>"
proof -
  have "page_row (Inl (FitzError ''unreadable page'')) = Inl (FitzError ''unreadable page'')"
    by (simp add: page_row_def)
  then show ?thesis
    by (simp add: extract_table_data_def lone_anchor_page_row)
qed

section \<open>Properties of the processing loop\<close>

subsection \<open>One file, then all files\<close>

lemma dedup_loop_fresh: "dedup_loop base_name generated final counter |\<notin>| generated"
proof (induction base_name generated final counter rule: dedup_loop.induct)
  case (1 base_name generated final counter)
  show ?case
  proof (cases "final |\<in>| generated")
    case True
    with "1.IH" show ?thesis by (subst dedup_loop.simps) simp
  next
    case False
    then show ?thesis by (subst dedup_loop.simps) simp
  qed
qed

lemma process_file_results_length:
  "length (results (process_file fitz_open st uploaded)) = length (results st) + 1"
  by (simp add: process_file_def Let_def)

lemma process_file_original_names:
  "map original_name (results (process_file fitz_open st uploaded)) =
     map original_name (results st) @ [file_name uploaded]"
  by (simp add: process_file_def Let_def)

lemma process_file_statuses:
  "map entry_status (results (process_file fitz_open st uploaded)) =
     map entry_status (results st) @ [if extracts fitz_open uploaded then Success else Failed]"
  by (simp add: process_file_def Let_def extracts_def)

lemma process_file_success_count:
  "success_count (process_file fitz_open st uploaded) =
     success_count st + (if extracts fitz_open uploaded then 1 else 0)"
  by (simp add: process_file_def Let_def extracts_def)

lemma process_file_fail_count:
  "fail_count (process_file fitz_open st uploaded) =
     fail_count st + (if extracts fitz_open uploaded then 0 else 1)"
  by (simp add: process_file_def Let_def extracts_def)

lemma process_file_zip_values:
  "map snd (zip_archive (process_file fitz_open st uploaded)) =
     map snd (zip_archive st) @ (if extracts fitz_open uploaded then [file_value uploaded] else [])"
  by (simp add: process_file_def Let_def extracts_def)

lemma process_file_zip_names:
  assumes "map fst (zip_archive st) =
     map new_name (filter (\<lambda>e. entry_status e = Success) (results st))"
  shows "map fst (zip_archive (process_file fitz_open st uploaded)) =
     map new_name (filter (\<lambda>e. entry_status e = Success)
        (results (process_file fitz_open st uploaded)))"
  using assms by (simp add: process_file_def Let_def)

lemma process_files_snoc:
  "process_files fitz_open st (files @ [uploaded]) =
     process_file fitz_open (process_files fitz_open st files) uploaded"
  by (induction files arbitrary: st) simp_all

lemma process_files_results_length:
  "length (results (process_files fitz_open st files)) = length (results st) + length files"
  by (induction files arbitrary: st) (simp_all add: process_file_results_length)

lemma process_files_original_names:
  "map original_name (results (process_files fitz_open st files)) =
     map original_name (results st) @ map file_name files"
  by (induction files arbitrary: st) (simp_all add: process_file_original_names)

lemma process_files_statuses:
  "map entry_status (results (process_files fitz_open st files)) =
     map entry_status (results st) @
     map (\<lambda>f. if extracts fitz_open f then Success else Failed) files"
  by (induction files arbitrary: st) (simp_all add: process_file_statuses)

lemma process_files_success_count:
  "success_count (process_files fitz_open st files) =
     success_count st + length (filter (extracts fitz_open) files)"
  by (induction files arbitrary: st) (simp_all add: process_file_success_count)

lemma process_files_fail_count:
  "fail_count (process_files fitz_open st files) =
     fail_count st + length (filter (\<lambda>f. \<not> extracts fitz_open f) files)"
  by (induction files arbitrary: st) (simp_all add: process_file_fail_count)

lemma process_files_zip_values:
  "map snd (zip_archive (process_files fitz_open st files)) =
     map snd (zip_archive st) @ map file_value (filter (extracts fitz_open) files)"
  by (induction files arbitrary: st) (simp_all add: process_file_zip_values)

lemma process_files_zip_names:
  "map fst (zip_archive st) = map new_name (filter (\<lambda>e. entry_status e = Success) (results st))
   \<Longrightarrow> map fst (zip_archive (process_files fitz_open st files)) =
     map new_name (filter (\<lambda>e. entry_status e = Success)
        (results (process_files fitz_open st files)))"
  by (induction files arbitrary: st) (simp_all add: process_file_zip_names)

text \<open>
  Claim C10. After the loop has handled the files \<open>files\<close>, the results list has one
  entry per file, in order, each with the file's name and the status of its extraction;
  \<^verbatim>\<open>success_count + fail_count\<close> is the number of files handled; the zip archive has
  one entry per success and none for a failed file: its contents are the bytes of the
  files whose extraction succeeded and its names the new names of the success entries.
  Handling one more file is one step of \<^const>\<open>process_file\<close> from that state, and
  appends exactly one entry.
\<close>

theorem batch_loop_invariant:
  "length (results (process_files fitz_open initial_batch files)) = length files
   \<and> map original_name (results (process_files fitz_open initial_batch files)) =
       map file_name files
   \<and> map entry_status (results (process_files fitz_open initial_batch files)) =
       map (\<lambda>f. if extracts fitz_open f then Success else Failed) files
   \<and> success_count (process_files fitz_open initial_batch files)
       + fail_count (process_files fitz_open initial_batch files) = length files
   \<and> success_count (process_files fitz_open initial_batch files) =
       length (filter (extracts fitz_open) files)
   \<and> length (zip_archive (process_files fitz_open initial_batch files)) =
       success_count (process_files fitz_open initial_batch files)
   \<and> map snd (zip_archive (process_files fitz_open initial_batch files)) =
       map file_value (filter (extracts fitz_open) files)
   \<and> map fst (zip_archive (process_files fitz_open initial_batch files)) =
       map new_name (filter (\<lambda>e. entry_status e = Success)
         (results (process_files fitz_open initial_batch files)))
   \<and> process_files fitz_open initial_batch (files @ [uploaded]) =
       process_file fitz_open (process_files fitz_open initial_batch files) uploaded
   \<and> length (results (process_files fitz_open initial_batch (files @ [uploaded]))) =
       length (results (process_files fitz_open initial_batch files)) + 1"
proof -
  let ?st = "process_files fitz_open initial_batch files"
  have 1: "length (results ?st) = length files"
    by (simp add: process_files_results_length initial_batch_def)
  have 2: "map original_name (results ?st) = map file_name files"
    by (simp add: process_files_original_names initial_batch_def)
  have 3: "map entry_status (results ?st) =
       map (\<lambda>f. if extracts fitz_open f then Success else Failed) files"
    by (simp add: process_files_statuses initial_batch_def)
  have s: "success_count ?st = length (filter (extracts fitz_open) files)"
    by (simp add: process_files_success_count initial_batch_def)
  have f: "fail_count ?st = length (filter (\<lambda>f. \<not> extracts fitz_open f) files)"
    by (simp add: process_files_fail_count initial_batch_def)
  have 4: "success_count ?st + fail_count ?st = length files"
    unfolding s f using sum_length_filter_compl [of "extracts fitz_open" files] by simp
  have v: "map snd (zip_archive ?st) = map file_value (filter (extracts fitz_open) files)"
    by (simp add: process_files_zip_values initial_batch_def)
  have "length (map snd (zip_archive ?st)) = success_count ?st"
    unfolding v s by simp
  then have 5: "length (zip_archive ?st) = success_count ?st" by simp
  have 6: "map fst (zip_archive ?st) =
       map new_name (filter (\<lambda>e. entry_status e = Success) (results ?st))"
    by (rule process_files_zip_names) (simp add: initial_batch_def)
  have 7: "process_files fitz_open initial_batch (files @ [uploaded]) =
       process_file fitz_open ?st uploaded"
    by (rule process_files_snoc)
  have 8: "length (results (process_files fitz_open initial_batch (files @ [uploaded]))) =
       length (results ?st) + 1"
    unfolding 7 by (rule process_file_results_length)
  from 1 2 3 4 s 5 v 6 7 8 show ?thesis by blast
qed

theorem batch_loop_invariant_witness:
  "map entry_status (results (process_files example_open initial_batch
      [upload ''a.pdf'' [1], upload ''b.pdf'' [0]])) = [Success, Failed]
   \<and> map original_name (results (process_files example_open initial_batch
      [upload ''a.pdf'' [1], upload ''b.pdf'' [0]])) = [''a.pdf'', ''b.pdf'']
   \<and> success_count (process_files example_open initial_batch
      [upload ''a.pdf'' [1], upload ''b.pdf'' [0]]) = 1
   \<and> fail_count (process_files example_open initial_batch
      [upload ''a.pdf'' [1], upload ''b.pdf'' [0]]) = 1
   \<and> map snd (zip_archive (process_files example_open initial_batch
      [upload ''a.pdf'' [1], upload ''b.pdf'' [0]])) = [[1]]"
proof -
  have a: "extracts example_open (upload ''a.pdf'' [1])"
    by (simp add: extracts_def upload_def example_open_def usable_def eval_defs)
  have b: "\<not> extracts example_open (upload ''b.pdf'' [0])"
    by (simp add: extracts_def upload_def example_open_def usable_def extract_table_data_def)
  define fs where "fs = [upload ''a.pdf'' [1], upload ''b.pdf'' [0]]"
  define st where "st = process_files example_open initial_batch fs"
  have sel: "filter (extracts example_open) fs = [upload ''a.pdf'' [1]]"
    using a b by (simp add: fs_def)
  note inv = batch_loop_invariant [of example_open fs, folded st_def]
  from inv have "map entry_status (results st) =
      map (\<lambda>f. if extracts example_open f then Success else Failed) fs" by blast
  then have 1: "map entry_status (results st) = [Success, Failed]"
    using a b by (simp add: fs_def)
  from inv have "map original_name (results st) = map file_name fs" by blast
  then have 2: "map original_name (results st) = [''a.pdf'', ''b.pdf'']"
    by (simp add: fs_def upload_def)
  from inv have "success_count st = length (filter (extracts example_open) fs)" by blast
  then have 3: "success_count st = 1" by (simp add: sel)
  from inv have "success_count st + fail_count st = length fs" by blast
  with 3 have 4: "fail_count st = 1" by (simp add: fs_def)
  from inv have "map snd (zip_archive st) = map file_value (filter (extracts example_open) fs)"
    by blast
  then have 5: "map snd (zip_archive st) = [[1]]" by (simp add: sel upload_def)
  from 1 2 3 4 5 show ?thesis unfolding st_def fs_def by blast
qed

subsection \<open>The names given to the archive\<close>

text \<open>The loop of line 122 ends on a name that is not in the set.\<close>

lemma process_file_names:
  assumes "set (map fst (zip_archive st)) \<subseteq> fset (generated_new_names st)"
    and "distinct (map fst (zip_archive st))"
  shows "set (map fst (zip_archive (process_file fitz_open st uploaded)))
           \<subseteq> fset (generated_new_names (process_file fitz_open st uploaded))
       \<and> distinct (map fst (zip_archive (process_file fitz_open st uploaded)))"
proof (cases "extracts fitz_open uploaded")
  case True
  define final where "final = dedup_loop
      (join ''_'' (take 9 (get_default [] (result (extract_table_data fitz_open (file_value uploaded))))))
      (generated_new_names st)
      (sanitize (join ''_'' (take 9 (get_default [] (result (extract_table_data fitz_open (file_value uploaded)))))) @ ''.pdf'') 1"
  have fresh: "final |\<notin>| generated_new_names st"
    unfolding final_def by (rule dedup_loop_fresh)
  from True have z: "zip_archive (process_file fitz_open st uploaded) =
      zip_archive st @ [(final, file_value uploaded)]"
    and g: "generated_new_names (process_file fitz_open st uploaded) =
      finsert final (generated_new_names st)"
    by (simp_all add: process_file_def Let_def extracts_def final_def)
  from fresh assms show ?thesis unfolding z g by auto
next
  case False
  then have "zip_archive (process_file fitz_open st uploaded) = zip_archive st"
    and "generated_new_names (process_file fitz_open st uploaded) = generated_new_names st"
    by (simp_all add: process_file_def Let_def extracts_def)
  with assms show ?thesis by simp
qed

lemma process_files_names:
  "set (map fst (zip_archive st)) \<subseteq> fset (generated_new_names st)
   \<Longrightarrow> distinct (map fst (zip_archive st))
   \<Longrightarrow> distinct (map fst (zip_archive (process_files fitz_open st files)))"
proof (induction files arbitrary: st)
  case Nil
  then show ?case by simp
next
  case (Cons f fs)
  from process_file_names [OF Cons.prems, of fitz_open f] Cons.IH show ?case by simp
qed

lemma archive_names_distinct:
  "distinct (map fst (zip_archive (process_files fitz_open initial_batch files)))"
  by (rule process_files_names) (simp_all add: initial_batch_def)

lemma slash_row: "result (extract_table_data example_open [2]) =
   Some [''KCZ'', ''A/B'', ''O'', ''03'', ''TL'', ''PR'', ''004'', ''R'', ''14'']"
  by (simp add: eval_defs example_open_def slash_row_spans_def)

text \<open>
  Claim C5 at a batch of two files with the same row, one token of which is \<^verbatim>\<open>A/B\<close>.
  The first name is the sanitized one. The second collides with it, and line 123 builds
  the next candidate from \<^verbatim>\<open>base_name\<close>, the join before sanitizing: the slash is
  back in the name written to the archive.
\<close>

theorem dedup_name_keeps_forbidden_character:
  "map new_name (results (process_files example_open initial_batch
      [upload ''first.pdf'' [2], upload ''second.pdf'' [2]])) =
     [''KCZ_A_B_O_03_TL_PR_004_R_14.pdf'', ''KCZ_A/B_O_03_TL_PR_004_R_14_1.pdf'']
   \<and> CHR ''/'' \<in> set ''KCZ_A/B_O_03_TL_PR_004_R_14_1.pdf''"
  by (simp add: slash_row process_file_def Let_def usable_def get_default_def initial_batch_def
      upload_def sanitize_def dedup_loop.simps str_nat.simps)

end
